theory Spec2Isabelle
  imports Main "HOL-Library.Word"
begin

unbundle bit_operations_syntax

section \<open>Pattern compilation and matching (pattern.go)\<close>

text \<open>
  Go strings and byte slices are sequences of bytes. A Go \<open>string\<close> is modelled as an
  Isabelle \<open>string\<close> (a list of 8-bit \<open>char\<close>s), a \<open>[]byte\<close> buffer as a list of
  \<open>8 word\<close>. Lengths and slice indices are natural numbers; the \<open>int\<close> parameter
  \<open>minLength\<close>, which a caller may pass negative, is an \<open>int\<close>.
\<close>

type_synonym byte = "8 word"

subsection \<open>StringToPattern\<close>

text \<open>\<open>fmt.Sprintf("%02X", b)\<close> for a byte: two upper-case hexadecimal digits.\<close>

definition upperhex :: "nat \<Rightarrow> char" where
  "upperhex d = ''0123456789ABCDEF'' ! d"

definition Sprintf_02X :: "char \<Rightarrow> string" where
  "Sprintf_02X b = [upperhex (of_char b div 16), upperhex (of_char b mod 16)]"

text \<open>
  The body of the \<open>for i := 0; i < patternLength; i++\<close> loop appends to the builder a
  separating blank (when \<open>i > 0\<close>) and then the token of position \<open>i\<close>.
\<close>

definition StringToPattern_token :: "string \<Rightarrow> nat \<Rightarrow> string" where
  "StringToPattern_token bytes i =
     (if i < length bytes
      then (let b = bytes ! i in if b = CHR ''?'' then ''??'' else Sprintf_02X b)
      else ''??'')"

function StringToPattern_loop :: "string \<Rightarrow> nat \<Rightarrow> nat \<Rightarrow> string \<Rightarrow> string" where
  "StringToPattern_loop bytes patternLength i builder =
     (if i < patternLength
      then StringToPattern_loop bytes patternLength (i + 1)
             ((if i > 0 then builder @ '' '' else builder) @ StringToPattern_token bytes i)
      else builder)"
  by pat_completeness auto
termination
  by (relation "measure (\<lambda>(bytes, patternLength, i, builder). patternLength - i)") auto

declare StringToPattern_loop.simps [simp del]

definition StringToPattern :: "string \<Rightarrow> int \<Rightarrow> string" where
  "StringToPattern searchStr minLength =
     (if searchStr = [] then []
      else
        let bytes = searchStr;
            patternLength = (if minLength > int (length bytes) then nat minLength
                             else length bytes)
        in StringToPattern_loop bytes patternLength 0 [])"

subsection \<open>NewPatternMatcher\<close>

text \<open>
  \<open>strings.Fields\<close> of the Go standard library splits a string around runs of white
  space as defined by \<open>unicode.IsSpace\<close>. On the bytes of the string these are the six
  ASCII characters tab, line feed, vertical tab, form feed, carriage return and blank, and
  the UTF-8 encodings of U+0085, U+00A0, U+1680, U+2000 to U+200A, U+2028, U+2029, U+202F,
  U+205F and U+3000. \<open>space_width\<close> is the number of bytes the white-space character at
  the head of the string occupies, 0 when the string does not start with one. The lead
  bytes of these encodings are never continuation bytes, so scanning the bytes from the
  left finds exactly the white-space runes the Go decoder finds.
\<close>

definition asciiSpace :: "char \<Rightarrow> bool" where
  "asciiSpace c = (c = CHR 0x09 \<or> c = CHR 0x0A \<or> c = CHR 0x0B \<or> c = CHR 0x0C
                   \<or> c = CHR 0x0D \<or> c = CHR 0x20)"

fun space_width :: "string \<Rightarrow> nat" where
  "space_width [] = 0"
| "space_width [c] = (if asciiSpace c then 1 else 0)"
| "space_width [c, d] =
     (if asciiSpace c then 1
      else if c = CHR 0xC2 \<and> (d = CHR 0x85 \<or> d = CHR 0xA0) then 2 else 0)"
| "space_width (c # d # e # rest) =
     (if asciiSpace c then 1
      else if c = CHR 0xC2 \<and> (d = CHR 0x85 \<or> d = CHR 0xA0) then 2
      else if c = CHR 0xE1 \<and> d = CHR 0x9A \<and> e = CHR 0x80 then 3
      else if c = CHR 0xE2 \<and> d = CHR 0x80
              \<and> ((0x80::nat) \<le> of_char e \<and> (of_char e :: nat) \<le> 0x8A
                  \<or> e = CHR 0xA8 \<or> e = CHR 0xA9 \<or> e = CHR 0xAF) then 3
      else if c = CHR 0xE2 \<and> d = CHR 0x81 \<and> e = CHR 0x9F then 3
      else if c = CHR 0xE3 \<and> d = CHR 0x80 \<and> e = CHR 0x80 then 3
      else 0)"

text \<open>
  \<open>Fields_scan skip cur s\<close> walks the string: \<open>skip\<close> counts the remaining bytes of a
  white-space character being passed over, \<open>cur\<close> is the field collected so far.
\<close>

fun Fields_scan :: "nat \<Rightarrow> string \<Rightarrow> string \<Rightarrow> string list" where
  "Fields_scan skip cur [] = (if cur = [] then [] else [cur])"
| "Fields_scan skip cur (c # cs) =
     (if skip > 0 then Fields_scan (skip - 1) cur cs
      else
        let w = space_width (c # cs)
        in if w > 0 then (if cur = [] then [] else [cur]) @ Fields_scan (w - 1) [] cs
           else Fields_scan 0 (cur @ [c]) cs)"

definition Fields :: "string \<Rightarrow> string list" where
  "Fields s = Fields_scan 0 [] s"

text \<open>
  \<open>hex.DecodeString\<close> of the Go standard library: every pair of characters must be two
  hexadecimal digits (upper or lower case) and gives one byte; an odd length or any other
  character is an error. The caller only tests \<open>err != nil\<close>, so the error is \<open>None\<close>.
\<close>

definition fromHexChar :: "char \<Rightarrow> byte option" where
  "fromHexChar c =
     (let n = (of_char c :: nat)
      in if 0x30 \<le> n \<and> n \<le> 0x39 then Some (of_nat (n - 0x30))
         else if 0x61 \<le> n \<and> n \<le> 0x66 then Some (of_nat (n - 0x61 + 10))
         else if 0x41 \<le> n \<and> n \<le> 0x46 then Some (of_nat (n - 0x41 + 10))
         else None)"

fun hex_DecodeString :: "string \<Rightarrow> byte list option" where
  "hex_DecodeString [] = Some []"
| "hex_DecodeString [p] = None"
| "hex_DecodeString (p # q # rest) =
     (case fromHexChar p of
        None \<Rightarrow> None
      | Some a \<Rightarrow>
          (case fromHexChar q of
             None \<Rightarrow> None
           | Some b \<Rightarrow>
               (case hex_DecodeString rest of
                  None \<Rightarrow> None
                | Some bs \<Rightarrow> Some ((push_bit 4 a OR b) # bs))))"

datatype pattern_error = EmptyPattern | InvalidHexPattern string

record PatternMatcher =
  patternBytes :: "byte list"
  wildcardMask :: "bool list"
  patternLength :: nat

text \<open>
  The \<open>for i, part := range parts\<close> loop writes into the two arrays allocated with
  \<open>make\<close> (all zero, all false) and returns at the first token that does not decode to
  exactly one byte.
\<close>

fun NewPatternMatcher_loop ::
  "string list \<Rightarrow> nat \<Rightarrow> byte list \<Rightarrow> bool list \<Rightarrow> pattern_error + (byte list \<times> bool list)"
where
  "NewPatternMatcher_loop [] i pbytes wmask = Inr (pbytes, wmask)"
| "NewPatternMatcher_loop (part # rest) i pbytes wmask =
     (if part = ''??'' then NewPatternMatcher_loop rest (i + 1) pbytes (wmask[i := True])
      else
        (case hex_DecodeString part of
           None \<Rightarrow> Inl (InvalidHexPattern part)
         | Some decoded \<Rightarrow>
             if length decoded \<noteq> 1 then Inl (InvalidHexPattern part)
             else NewPatternMatcher_loop rest (i + 1) (pbytes[i := decoded ! 0]) wmask))"

definition NewPatternMatcher :: "string \<Rightarrow> pattern_error + PatternMatcher" where
  "NewPatternMatcher pattern =
     (let parts = Fields pattern
      in if length parts = 0 then Inl EmptyPattern
         else
           (case NewPatternMatcher_loop parts 0 (replicate (length parts) 0)
                   (replicate (length parts) False) of
              Inl e \<Rightarrow> Inl e
            | Inr (pbytes, wmask) \<Rightarrow>
                Inr \<lparr>patternBytes = pbytes, wildcardMask = wmask,
                     patternLength = length parts\<rparr>))"

subsection \<open>FindMatches and matchesAt\<close>

text \<open>
  With \<open>ignoreCase\<close> both bytes are mapped to upper case when they lie in \<open>'a'..'z'\<close>
  (unsigned comparison of bytes, subtraction of \<open>'a' - 'A' = 32\<close>).
\<close>

definition toUpperASCII :: "bool \<Rightarrow> byte \<Rightarrow> byte" where
  "toUpperASCII ignoreCase b =
     (if ignoreCase \<and> 0x61 \<le> b \<and> b \<le> 0x7A then b - (0x61 - 0x41) else b)"

function matchesAt_loop :: "PatternMatcher \<Rightarrow> byte list \<Rightarrow> nat \<Rightarrow> bool \<Rightarrow> nat \<Rightarrow> bool" where
  "matchesAt_loop pm data pos ignoreCase j =
     (if j < patternLength pm then
        (if wildcardMask pm ! j then matchesAt_loop pm data pos ignoreCase (j + 1)
         else
           let dataByte = toUpperASCII ignoreCase (data ! (pos + j));
               patternByte = toUpperASCII ignoreCase (patternBytes pm ! j)
           in if dataByte \<noteq> patternByte then False
              else matchesAt_loop pm data pos ignoreCase (j + 1))
      else True)"
  by pat_completeness auto
termination
  by (relation "measure (\<lambda>(pm, data, pos, ignoreCase, j). patternLength pm - j)") auto

declare matchesAt_loop.simps [simp del]

definition matchesAt :: "PatternMatcher \<Rightarrow> byte list \<Rightarrow> nat \<Rightarrow> bool \<Rightarrow> bool" where
  "matchesAt pm data pos ignoreCase = matchesAt_loop pm data pos ignoreCase 0"

function FindMatches_loop ::
  "PatternMatcher \<Rightarrow> byte list \<Rightarrow> bool \<Rightarrow> nat \<Rightarrow> nat list \<Rightarrow> nat list"
where
  "FindMatches_loop pm data ignoreCase i matches =
     (if i \<le> length data - patternLength pm
      then FindMatches_loop pm data ignoreCase (i + 1)
             (if matchesAt pm data i ignoreCase then matches @ [i] else matches)
      else matches)"
  by pat_completeness auto
termination
  by (relation "measure (\<lambda>(pm, data, ignoreCase, i, matches).
                           Suc (length data - patternLength pm) - i)") auto

declare FindMatches_loop.simps [simp del]

definition FindMatches :: "PatternMatcher \<Rightarrow> byte list \<Rightarrow> bool \<Rightarrow> nat list" where
  "FindMatches pm data ignoreCase =
     (if patternLength pm = 0 \<or> patternLength pm > length data then []
      else FindMatches_loop pm data ignoreCase 0 [])"

definition GetPatternLength :: "PatternMatcher \<Rightarrow> nat" where
  "GetPatternLength pm = patternLength pm"

section \<open>The scan engine\<close>

text \<open>
  Addresses are unsigned 64-bit integers (\<open>type Address uint64\<close>; the conversions
  \<open>uintptr(address)\<close> and \<open>uint64(mbi.BaseAddress)\<close> are the identity on a 64-bit
  platform). \<open>+\<close> and \<open>-\<close> wrap around, \<open><\<close> and \<open>\<le>\<close> compare unsigned.
\<close>

type_synonym Address = "64 word"

record Match =
  Address :: "64 word"
  Data :: "byte list"

text \<open>
  \<open>windows.MemoryBasicInformation\<close>, the fields the scan reads. The constants are those
  of the Windows API as \<open>golang.org/x/sys/windows\<close> declares them.
\<close>

record MemoryBasicInformation =
  BaseAddress :: "64 word"
  RegionSize :: "64 word"
  State :: "32 word"
  Protect :: "32 word"

definition PAGE_READONLY :: "32 word" where "PAGE_READONLY = 0x02"
definition PAGE_READWRITE :: "32 word" where "PAGE_READWRITE = 0x04"
definition PAGE_WRITECOPY :: "32 word" where "PAGE_WRITECOPY = 0x08"
definition PAGE_EXECUTE :: "32 word" where "PAGE_EXECUTE = 0x10"
definition PAGE_EXECUTE_READ :: "32 word" where "PAGE_EXECUTE_READ = 0x20"
definition PAGE_EXECUTE_READWRITE :: "32 word" where "PAGE_EXECUTE_READWRITE = 0x40"
definition PAGE_EXECUTE_WRITECOPY :: "32 word" where "PAGE_EXECUTE_WRITECOPY = 0x80"
definition PAGE_GUARD :: "32 word" where "PAGE_GUARD = 0x100"
definition MEM_COMMIT :: "32 word" where "MEM_COMMIT = 0x1000"
definition MEM_RESERVE :: "32 word" where "MEM_RESERVE = 0x2000"

text \<open>
  The scan talks to three things outside itself: the context (cancellation), the target
  process through \<open>VirtualQueryEx\<close> and \<open>ReadProcessMemory\<close>, and the caller's handler.
  They are modelled as functions on a state \<open>'w\<close> of the outside world, which each call
  may change; a cancellation signalled asynchronously becomes visible in the world state
  after one of these calls. \<open>ctx_Err\<close> is \<open>ctx.Err()\<close>: \<open>None\<close> while the \<open>Done\<close>
  channel is open, the context's error once it is closed. \<open>VirtualQueryEx\<close> gives
  \<open>None\<close> for \<open>err != nil\<close>. \<open>ReadProcessMemory\<close> is called with the base address
  and the number of bytes wanted and gives \<open>None\<close> for \<open>err != nil\<close>, otherwise the
  bytes transferred (their number is \<open>bytesRead\<close>; the call never transfers more than it
  was asked for, so the model keeps at most that many).
\<close>

datatype ctx_error = Canceled | DeadlineExceeded

record 'w Process =
  ctx_Err :: "'w \<Rightarrow> ctx_error option"
  VirtualQueryEx :: "'w \<Rightarrow> 64 word \<Rightarrow> MemoryBasicInformation option \<times> 'w"
  ReadProcessMemory :: "'w \<Rightarrow> 64 word \<Rightarrow> 64 word \<Rightarrow> byte list option \<times> 'w"

record 'w ScanOptions =
  Pattern :: string
  IgnoreCase :: bool
  MinAddress :: "64 word"
  MaxAddress :: "64 word"
  Handler :: "Match \<Rightarrow> 'w \<Rightarrow> bool \<times> 'w"

datatype scan_error = InvalidPattern pattern_error | ContextError ctx_error

text \<open>
  The calls the scan makes are recorded, in order, in a trace that is threaded through
  the model next to the world state: a region query with its address, a read with its base
  address and length, a handler invocation with the match it received.
\<close>

datatype event = Query "64 word" | Read "64 word" "64 word" | Deliver Match

type_synonym 'w scan_state = "'w \<times> event list"

definition isReadableRegion :: "MemoryBasicInformation \<Rightarrow> bool" where
  "isReadableRegion mbi =
     (let isReadable = (Protect mbi AND (PAGE_READONLY OR PAGE_READWRITE
                          OR PAGE_EXECUTE_READ OR PAGE_EXECUTE_READWRITE) \<noteq> 0);
          isCommitted = (State mbi = MEM_COMMIT)
      in isReadable \<and> isCommitted)"

text \<open>
  \<open>copy(dst, src)\<close> overwrites the first \<open>min(len(dst), len(src))\<close> elements of \<open>dst\<close>;
  \<open>buffer[lo:hi]\<close> is the slice from \<open>lo\<close> up to \<open>hi\<close>.
\<close>

definition copy :: "'a list \<Rightarrow> 'a list \<Rightarrow> 'a list" where
  "copy dst src = take (length dst) src @ drop (length src) dst"

definition slice :: "'a list \<Rightarrow> nat \<Rightarrow> nat \<Rightarrow> 'a list" where
  "slice xs lo hi = take (hi - lo) (drop lo xs)"

text \<open>
  The \<open>for _, offset := range matches\<close> loop of \<open>scanRegion\<close>. The result is the Go
  \<open>error\<close>: \<open>None\<close> is \<open>nil\<close>.
\<close>

fun scanRegion_matches ::
  "'w Process \<Rightarrow> 'w ScanOptions \<Rightarrow> PatternMatcher \<Rightarrow> 64 word \<Rightarrow> byte list \<Rightarrow> nat list
   \<Rightarrow> 'w scan_state \<Rightarrow> scan_error option \<times> 'w scan_state"
where
  "scanRegion_matches env opts matcher baseAddr buffer [] st = (None, st)"
| "scanRegion_matches env opts matcher baseAddr buffer (offset # rest) st =
     (case ctx_Err env (fst st) of
        Some e \<Rightarrow> (Some (ContextError e), st)
      | None \<Rightarrow>
          let absoluteAddress = baseAddr + of_nat offset
          in if offset + GetPatternLength matcher > length buffer
             then scanRegion_matches env opts matcher baseAddr buffer rest st
             else
               let matchedData = copy (replicate (GetPatternLength matcher) 0)
                                   (slice buffer offset (offset + GetPatternLength matcher));
                   match = \<lparr>Address = absoluteAddress, Data = matchedData\<rparr>;
                   answer = Handler opts match (fst st);
                   st' = (snd answer, snd st @ [Deliver match])
               in if \<not> fst answer then (None, st')
                  else scanRegion_matches env opts matcher baseAddr buffer rest st')"

text \<open>
  \<open>scanRegion\<close>: the bounds of the read, the read, and the search of what was read.
  \<open>make([]byte, readLength)\<close> is the array the read fills (running out of memory for it
  is outside the model); \<open>buffer[:bytesRead]\<close> is the list of the bytes transferred, and
  \<open>bytesRead == 0\<close> is the empty list. The read is recorded in the trace whether it
  succeeds or not.
\<close>

definition scanRegion ::
  "'w Process \<Rightarrow> 'w ScanOptions \<Rightarrow> PatternMatcher \<Rightarrow> 64 word \<Rightarrow> 64 word \<Rightarrow> 64 word
   \<Rightarrow> 'w scan_state \<Rightarrow> scan_error option \<times> 'w scan_state"
where
  "scanRegion env opts matcher baseAddr regionSize maxAddress st =
     (let readEnd = (if baseAddr + regionSize > maxAddress then maxAddress
                     else baseAddr + regionSize)
      in if readEnd \<le> baseAddr then (None, st)
         else
           let readLength = readEnd - baseAddr;
               answer = ReadProcessMemory env (fst st) baseAddr readLength;
               st' = (snd answer, snd st @ [Read baseAddr readLength])
           in (case fst answer of
                 None \<Rightarrow> (None, st')
               | Some bytes \<Rightarrow>
                   let buffer = take (unat readLength) bytes
                   in if length buffer = 0 then (None, st')
                      else scanRegion_matches env opts matcher baseAddr buffer
                             (FindMatches matcher buffer (IgnoreCase opts)) st'))"

text \<open>The cursor after a region: \<open>baseAddr + regionSize\<close>, one more when the size is 0.\<close>

definition next_address :: "MemoryBasicInformation \<Rightarrow> 64 word" where
  "next_address mbi =
     (let address = BaseAddress mbi + RegionSize mbi
      in if RegionSize mbi = 0 then address + 1 else address)"

text \<open>
  One pass through the body of the \<open>for address < maxAddress\<close> loop of \<open>Scan\<close>:
  \<open>Inl\<close> is a \<open>return\<close> or the \<open>break\<close> (which leads to \<open>return nil\<close>), with the error
  returned; \<open>Inr\<close> carries the cursor into the next pass.
\<close>

definition Scan_body ::
  "'w Process \<Rightarrow> 'w ScanOptions \<Rightarrow> PatternMatcher \<Rightarrow> 64 word \<Rightarrow> 64 word \<Rightarrow> 'w scan_state
   \<Rightarrow> (scan_error option \<times> 'w scan_state) + (64 word \<times> 'w scan_state)"
where
  "Scan_body env opts matcher maxAddress address st =
     (case ctx_Err env (fst st) of
        Some e \<Rightarrow> Inl (Some (ContextError e), st)
      | None \<Rightarrow>
          let answer = VirtualQueryEx env (fst st) address;
              st1 = (snd answer, snd st @ [Query address])
          in (case fst answer of
                None \<Rightarrow> Inl (None, st1)
              | Some mbi \<Rightarrow>
                  let baseAddr = BaseAddress mbi;
                      regionSize = RegionSize mbi;
                      scanned = (if isReadableRegion mbi
                                 then scanRegion env opts matcher baseAddr regionSize
                                        maxAddress st1
                                 else (None, st1))
                  in if fst scanned \<noteq> None then Inl scanned
                     else Inr (next_address mbi, snd scanned)))"

text \<open>
  The loop may run forever (nothing in the code bounds the number of passes), so it is a
  partial function: \<open>None\<close> is a scan that never returns. The calls to the operating
  system and to the handler are taken to return.
\<close>

partial_function (option) Scan_loop ::
  "'w Process \<Rightarrow> 'w ScanOptions \<Rightarrow> PatternMatcher \<Rightarrow> 64 word \<Rightarrow> 64 word \<Rightarrow> 'w scan_state
   \<Rightarrow> (scan_error option \<times> 'w scan_state) option"
where
  "Scan_loop env opts matcher maxAddress address st =
     (if address < maxAddress then
        (case Scan_body env opts matcher maxAddress address st of
           Inl result \<Rightarrow> Some result
         | Inr continue \<Rightarrow> Scan_loop env opts matcher maxAddress (fst continue) (snd continue))
      else Some (None, st))"

declare Scan_loop.simps [code]

definition Scan ::
  "'w Process \<Rightarrow> 'w ScanOptions \<Rightarrow> 'w scan_state \<Rightarrow> (scan_error option \<times> 'w scan_state) option"
where
  "Scan env opts st =
     (case NewPatternMatcher (Pattern opts) of
        Inl err \<Rightarrow> Some (Some (InvalidPattern err), st)
      | Inr patternMatcher \<Rightarrow>
          Scan_loop env opts patternMatcher (MaxAddress opts) (MinAddress opts) st)"

section \<open>Notions of the specification\<close>

text \<open>
  A matcher is well formed when both arrays have the pattern's length; then every index
  \<open>matchesAt\<close> reads lies inside them. \<open>NewPatternMatcher\<close> is the only constructor
  (the fields are unexported), and the zero value has length 0.
\<close>

definition matcher_ok :: "PatternMatcher \<Rightarrow> bool" where
  "matcher_ok pm = (length (patternBytes pm) = patternLength pm
                    \<and> length (wildcardMask pm) = patternLength pm)"

text \<open>
  Equality of two bytes, case-folded for ASCII letters when \<open>ignoreCase\<close> is set: the
  bytes are equal, or one is an upper-case letter \<open>'A'..'Z'\<close> and the other the same
  letter in lower case.
\<close>

definition eq_fold :: "bool \<Rightarrow> byte \<Rightarrow> byte \<Rightarrow> bool" where
  "eq_fold ignoreCase a b =
     (a = b \<or> ignoreCase \<and> (0x41 \<le> a \<and> a \<le> 0x5A \<and> b = a + 0x20
                          \<or> 0x41 \<le> b \<and> b \<le> 0x5A \<and> a = b + 0x20))"

text \<open>The pattern occurs in the buffer at offset \<open>i\<close>.\<close>

definition occurs_at :: "PatternMatcher \<Rightarrow> byte list \<Rightarrow> bool \<Rightarrow> nat \<Rightarrow> bool" where
  "occurs_at pm buffer ignoreCase i =
     (\<forall>j<patternLength pm.
        wildcardMask pm ! j \<or> eq_fold ignoreCase (buffer ! (i + j)) (patternBytes pm ! j))"

text \<open>The wire format of a pattern: tokens joined by single blanks.\<close>

fun join_space :: "string list \<Rightarrow> string" where
  "join_space [] = []"
| "join_space [t] = t"
| "join_space (t # u # ts) = t @ '' '' @ join_space (u # ts)"

text \<open>A token that is exactly one hex-encoded byte: two hexadecimal digits.\<close>

definition hex_digit :: "char \<Rightarrow> bool" where
  "hex_digit c = (c \<in> set ''0123456789abcdefABCDEF'')"

definition hex_byte_token :: "string \<Rightarrow> bool" where
  "hex_byte_token t = (length t = 2 \<and> hex_digit (t ! 0) \<and> hex_digit (t ! 1))"

text \<open>
  A character that cannot be part of a white-space character: an ASCII character other than
  the six ASCII white-space characters.
\<close>

definition plain_char :: "char \<Rightarrow> bool" where
  "plain_char c = (\<not> asciiSpace c \<and> (of_char c :: nat) < 0x80)"

text \<open>
  The match for an occurrence at \<open>offset\<close> in the buffer read at \<open>baseAddr\<close>: the absolute
  address and the \<open>patternLength\<close> bytes of the buffer from the offset on.
\<close>

definition match_at :: "PatternMatcher \<Rightarrow> 64 word \<Rightarrow> byte list \<Rightarrow> nat \<Rightarrow> Match" where
  "match_at pm baseAddr buffer offset =
     \<lparr>Address = baseAddr + of_nat offset,
      Data = take (patternLength pm) (drop offset buffer)\<rparr>"

text \<open>
  A match of the pattern's length that lies entirely below \<open>maxAddress\<close>.
\<close>

definition match_within :: "PatternMatcher \<Rightarrow> 64 word \<Rightarrow> Match \<Rightarrow> bool" where
  "match_within pm maxAddress m =
     (length (Data m) = patternLength pm
      \<and> unat (Address m) + length (Data m) \<le> unat maxAddress)"

text \<open>The end of the range \<open>scanRegion\<close> reads, as the code clamps it.\<close>

definition read_end :: "64 word \<Rightarrow> 64 word \<Rightarrow> 64 word \<Rightarrow> 64 word" where
  "read_end baseAddr regionSize maxAddress =
     (if baseAddr + regionSize > maxAddress then maxAddress else baseAddr + regionSize)"

text \<open>The matches handed to the handler, in order, as a trace records them.\<close>

fun delivered :: "event list \<Rightarrow> Match list" where
  "delivered [] = []"
| "delivered (Deliver m # es) = m # delivered es"
| "delivered (Query a # es) = delivered es"
| "delivered (Read a n # es) = delivered es"

text \<open>The reads issued, with base address and length, as a trace records them.\<close>

fun reads :: "event list \<Rightarrow> (64 word \<times> 64 word) list" where
  "reads [] = []"
| "reads (Read a n # es) = (a, n) # reads es"
| "reads (Query a # es) = reads es"
| "reads (Deliver m # es) = reads es"

text \<open>
  The buffer \<open>scanRegion\<close> searches after a read of \<open>n\<close> bytes at \<open>baseAddr\<close> in the
  world \<open>w\<close>: the bytes transferred, nothing when the read fails.
\<close>

definition region_buffer :: "'w Process \<Rightarrow> 'w \<Rightarrow> 64 word \<Rightarrow> 64 word \<Rightarrow> byte list" where
  "region_buffer env w baseAddr n =
     (case fst (ReadProcessMemory env w baseAddr n) of
        None \<Rightarrow> []
      | Some bytes \<Rightarrow> take (unat n) bytes)"

text \<open>The state in which one pass through the loop body ends, whichever way it ends.\<close>

definition body_state ::
  "(scan_error option \<times> 'w scan_state) + (64 word \<times> 'w scan_state) \<Rightarrow> 'w scan_state" where
  "body_state r = (case r of Inl res \<Rightarrow> snd res | Inr continue \<Rightarrow> snd continue)"

text \<open>The events a step added to the trace \<open>tr\<close> it started from.\<close>

definition added :: "event list \<Rightarrow> event list \<Rightarrow> event list" where
  "added tr tr' = drop (length tr) tr'"

section \<open>Concrete processes\<close>

text \<open>
  A target process with a fixed memory map: each region has its descriptor and its
  contents (\<open>None\<close> when reading it fails). A query answers with the region that contains
  the address and fails when there is none; a read gives the bytes from the address on.
  The world state counts the handler invocations so far, and the context's error is a
  function of that count, so that a cancellation can arrive between two matches.
\<close>

type_synonym memory_map = "(MemoryBasicInformation \<times> byte list option) list"

definition region_at ::
  "memory_map \<Rightarrow> 64 word \<Rightarrow> (MemoryBasicInformation \<times> byte list option) option" where
  "region_at regions a =
     find (\<lambda>r. BaseAddress (fst r) \<le> a \<and> a - BaseAddress (fst r) < RegionSize (fst r)) regions"

definition static_process :: "memory_map \<Rightarrow> (nat \<Rightarrow> ctx_error option) \<Rightarrow> nat Process" where
  "static_process regions cancelled =
     \<lparr>ctx_Err = cancelled,
      VirtualQueryEx = (\<lambda>w a. (map_option fst (region_at regions a), w)),
      ReadProcessMemory = (\<lambda>w a n.
        (case region_at regions a of
           None \<Rightarrow> None
         | Some r \<Rightarrow>
             (case snd r of
                None \<Rightarrow> None
              | Some content \<Rightarrow>
                  Some (take (unat n) (drop (unat (a - BaseAddress (fst r))) content))),
         w))\<rparr>"

definition never_cancelled :: "nat \<Rightarrow> ctx_error option" where
  "never_cancelled w = None"

definition cancelled_after :: "nat \<Rightarrow> nat \<Rightarrow> ctx_error option" where
  "cancelled_after k w = (if k \<le> w then Some Canceled else None)"

definition stop_handler :: "Match \<Rightarrow> nat \<Rightarrow> bool \<times> nat" where
  "stop_handler m w = (False, Suc w)"

definition continue_handler :: "Match \<Rightarrow> nat \<Rightarrow> bool \<times> nat" where
  "continue_handler m w = (True, Suc w)"

definition scan_options ::
  "string \<Rightarrow> 64 word \<Rightarrow> 64 word \<Rightarrow> (Match \<Rightarrow> nat \<Rightarrow> bool \<times> nat) \<Rightarrow> nat ScanOptions" where
  "scan_options pattern lo hi handler =
     \<lparr>Pattern = pattern, IgnoreCase = False, MinAddress = lo, MaxAddress = hi,
      Handler = handler\<rparr>"

text \<open>Two committed read-write regions of four bytes, each starting with the byte \<open>0x41\<close>.\<close>

definition two_regions :: memory_map where
  "two_regions =
     [(\<lparr>BaseAddress = 0, RegionSize = 4, State = MEM_COMMIT, Protect = PAGE_READWRITE\<rparr>,
       Some [0x41, 0x00, 0x00, 0x00]),
      (\<lparr>BaseAddress = 4, RegionSize = 4, State = MEM_COMMIT, Protect = PAGE_READWRITE\<rparr>,
       Some [0x41, 0x00, 0x00, 0x00])]"

text \<open>One committed read-write region of eight bytes with \<open>0x41 0x42\<close> at addresses 2 and 3,
  and again at addresses 5 and 6.\<close>

definition one_region :: memory_map where
  "one_region =
     [(\<lparr>BaseAddress = 0, RegionSize = 8, State = MEM_COMMIT, Protect = PAGE_READWRITE\<rparr>,
       Some [0x00, 0x00, 0x41, 0x42, 0x00, 0x41, 0x42, 0x00])]"

text \<open>The matchers for the patterns \<open>41\<close> and \<open>41 42\<close>.\<close>

definition matcher_41 :: PatternMatcher where
  "matcher_41 = \<lparr>patternBytes = [0x41], wildcardMask = [False], patternLength = 1\<rparr>"

definition matcher_41_42 :: PatternMatcher where
  "matcher_41_42 =
     \<lparr>patternBytes = [0x41, 0x42], wildcardMask = [False, False], patternLength = 2\<rparr>"

text \<open>A committed read-write page with the guard modifier; reading a guard page fails.\<close>

definition guard_region :: MemoryBasicInformation where
  "guard_region =
     \<lparr>BaseAddress = 0, RegionSize = 4, State = MEM_COMMIT,
      Protect = PAGE_GUARD OR PAGE_READWRITE\<rparr>"

definition guarded_memory :: memory_map where
  "guarded_memory = [(guard_region, None)]"


section \<open>Properties of the pattern matcher\<close>

lemma lower_to_upper:
  fixes a :: byte
  assumes "0x61 \<le> a" "a \<le> 0x7A"
  shows "0x41 \<le> a - 0x20" "a - 0x20 \<le> 0x5A" "a = (a - 0x20) + 0x20" "\<not> a \<le> 0x5A"
  using assms by (simp_all add: word_le_nat_alt unat_sub)

lemma upper_to_lower:
  fixes a :: byte
  assumes "0x41 \<le> a" "a \<le> 0x5A"
  shows "0x61 \<le> a + 0x20" "a + 0x20 \<le> 0x7A" "a + 0x20 - 0x20 = a"
  using assms by (simp_all add: word_le_nat_alt unat_word_ariths)

lemma toUpperASCII_eq_fold:
  "toUpperASCII ic a = toUpperASCII ic b \<longleftrightarrow> eq_fold ic a b"
proof (cases ic)
  case False
  then show ?thesis by (simp add: toUpperASCII_def eq_fold_def)
next
  case True
  consider (ll) "0x61 \<le> a \<and> a \<le> 0x7A" "0x61 \<le> b \<and> b \<le> 0x7A"
    | (ln) "0x61 \<le> a \<and> a \<le> 0x7A" "\<not> (0x61 \<le> b \<and> b \<le> 0x7A)"
    | (nl) "\<not> (0x61 \<le> a \<and> a \<le> 0x7A)" "0x61 \<le> b \<and> b \<le> 0x7A"
    | (nn) "\<not> (0x61 \<le> a \<and> a \<le> 0x7A)" "\<not> (0x61 \<le> b \<and> b \<le> 0x7A)"
    by blast
  then show ?thesis
  proof cases
    case ll
    then show ?thesis
      using True lower_to_upper(4) [of a] lower_to_upper(4) [of b]
      by (auto simp: toUpperASCII_def eq_fold_def)
  next
    case ln
    then show ?thesis
      using True lower_to_upper [of a] upper_to_lower [of b]
      by (auto simp: toUpperASCII_def eq_fold_def)
  next
    case nl
    then show ?thesis
      using True lower_to_upper [of b] upper_to_lower [of a]
      by (auto simp: toUpperASCII_def eq_fold_def)
  next
    case nn
    then show ?thesis
      using True upper_to_lower [of a] upper_to_lower [of b]
      by (auto simp: toUpperASCII_def eq_fold_def)
  qed
qed

lemma matchesAt_loop_iff:
  "matchesAt_loop pm data pos ic j \<longleftrightarrow>
     (\<forall>k. j \<le> k \<and> k < patternLength pm \<longrightarrow>
        wildcardMask pm ! k \<or> eq_fold ic (data ! (pos + k)) (patternBytes pm ! k))"
proof (induction pm data pos ic j rule: matchesAt_loop.induct)
  case (1 pm data pos ic j)
  let ?Q = "\<lambda>k. wildcardMask pm ! k \<or> eq_fold ic (data ! (pos + k)) (patternBytes pm ! k)"
  show ?case
  proof (cases "j < patternLength pm")
    case False
    then have "matchesAt_loop pm data pos ic j" by (subst matchesAt_loop.simps) simp
    with False show ?thesis by auto
  next
    case True
    have split: "(\<forall>k. j \<le> k \<and> k < patternLength pm \<longrightarrow> ?Q k) \<longleftrightarrow>
        ?Q j \<and> (\<forall>k. j + 1 \<le> k \<and> k < patternLength pm \<longrightarrow> ?Q k)"
    proof -
      have "j \<le> k \<longleftrightarrow> k = j \<or> j + 1 \<le> k" for k by auto
      with True show ?thesis by auto
    qed
    show ?thesis
    proof (cases "wildcardMask pm ! j")
      case wc: True
      have "matchesAt_loop pm data pos ic j = matchesAt_loop pm data pos ic (j + 1)"
        using True wc by (subst matchesAt_loop.simps) simp
      also have "\<dots> = (\<forall>k. j + 1 \<le> k \<and> k < patternLength pm \<longrightarrow> ?Q k)"
        by (rule 1(1) [OF True wc])
      finally show ?thesis unfolding split using wc by simp
    next
      case wc: False
      show ?thesis
      proof (cases "toUpperASCII ic (data ! (pos + j)) = toUpperASCII ic (patternBytes pm ! j)")
        case eq: True
        have "matchesAt_loop pm data pos ic j = matchesAt_loop pm data pos ic (j + 1)"
          using True wc eq by (subst matchesAt_loop.simps) (simp add: Let_def)
        also have "\<dots> = (\<forall>k. j + 1 \<le> k \<and> k < patternLength pm \<longrightarrow> ?Q k)"
          using eq by (intro 1(2) [OF True wc refl refl]) simp
        finally show ?thesis unfolding split using eq by (simp add: toUpperASCII_eq_fold)
      next
        case ne: False
        have "\<not> matchesAt_loop pm data pos ic j"
          using True wc ne by (subst matchesAt_loop.simps) (simp add: Let_def)
        moreover have "\<not> ?Q j" using wc ne by (simp add: toUpperASCII_eq_fold)
        ultimately show ?thesis unfolding split by simp
      qed
    qed
  qed
qed

lemma matchesAt_occurs_at: "matchesAt pm data pos ic \<longleftrightarrow> occurs_at pm data ic pos"
  by (simp add: matchesAt_def occurs_at_def matchesAt_loop_iff)

lemma FindMatches_loop_filter:
  "i \<le> Suc (length data - patternLength pm) \<Longrightarrow>
   FindMatches_loop pm data ic i acc =
     acc @ filter (\<lambda>i. matchesAt pm data i ic) [i..<Suc (length data - patternLength pm)]"
proof (induction pm data ic i acc rule: FindMatches_loop.induct)
  case (1 pm data ic i acc)
  show ?case
  proof (cases "i \<le> length data - patternLength pm")
    case True
    then have "[i..<Suc (length data - patternLength pm)]
               = i # [i + 1..<Suc (length data - patternLength pm)]"
      by (simp add: upt_conv_Cons)
    with True 1(1) [OF True] show ?thesis
      by (subst FindMatches_loop.simps) simp
  next
    case False
    with 1(2) have "i = Suc (length data - patternLength pm)" by simp
    then show ?thesis by (subst FindMatches_loop.simps) simp
  qed
qed

lemma FindMatches_filter:
  "FindMatches pm data ic =
     (if patternLength pm = 0 then []
      else filter (occurs_at pm data ic) [0..<length data + 1 - patternLength pm])"
proof -
  have "Suc (length data - patternLength pm) = length data + 1 - patternLength pm"
    if "patternLength pm \<le> length data"
    using that by simp
  then show ?thesis
    by (auto simp: FindMatches_def FindMatches_loop_filter matchesAt_occurs_at [abs_def])
qed

lemma FindMatches_in_range:
  "i \<in> set (FindMatches pm data ic) \<Longrightarrow> i + patternLength pm \<le> length data"
  by (auto simp: FindMatches_filter split: if_splits)

lemma FindMatches_strict_sorted: "sorted_wrt (<) (FindMatches pm data ic)"
  by (simp add: FindMatches_filter sorted_wrt_filter)

subsection \<open>StringToPattern\<close>


lemma join_space_snoc:
  "join_space (ts @ [t]) = (if ts = [] then t else join_space ts @ '' '' @ t)"
  by (induction ts rule: join_space.induct) auto

lemma StringToPattern_loop_join:
  "i \<le> n \<Longrightarrow> builder = join_space (map (StringToPattern_token bytes) [0..<i]) \<Longrightarrow>
   StringToPattern_loop bytes n i builder = join_space (map (StringToPattern_token bytes) [0..<n])"
proof (induction bytes n i builder rule: StringToPattern_loop.induct)
  case (1 bytes n i builder)
  show ?case
  proof (cases "i < n")
    case False
    with 1(2,3) show ?thesis by (subst StringToPattern_loop.simps) simp
  next
    case True
    have "(if i > 0 then builder @ '' '' else builder) @ StringToPattern_token bytes i
          = join_space (map (StringToPattern_token bytes) [0..<i + 1])"
      using 1(3) by (simp add: join_space_snoc)
    with True 1(1) [OF True] show ?thesis
      by (subst StringToPattern_loop.simps) simp
  qed
qed

lemma StringToPattern_join:
  "searchStr \<noteq> [] \<Longrightarrow>
   StringToPattern searchStr minLength =
     join_space (map (StringToPattern_token searchStr)
                   [0..<nat (max (int (length searchStr)) minLength)])"
  by (auto simp: StringToPattern_def Let_def max_def StringToPattern_loop_join)

subsection \<open>NewPatternMatcher\<close>

lemma fromHexChar_hex_digit: "fromHexChar c \<noteq> None \<longleftrightarrow> hex_digit c"
proof
  assume "hex_digit c"
  then show "fromHexChar c \<noteq> None"
    by (auto simp: hex_digit_def fromHexChar_def)
next
  assume a: "fromHexChar c \<noteq> None"
  define n where "n = (of_char c :: nat)"
  from a have "n \<in> {0x30..0x39} \<union> {0x61..0x66} \<union> {0x41..0x46}"
    by (auto simp: fromHexChar_def Let_def n_def split: if_splits)
  then have "n \<in> {48, 49, 50, 51, 52, 53, 54, 55, 56, 57, 97, 98, 99, 100, 101, 102,
                  65, 66, 67, 68, 69, 70}"
    by (auto simp: atLeastAtMost_def atLeast_def atMost_def) arith+
  then have "\<exists>d\<in>set ''0123456789abcdefABCDEF''. (of_char d :: nat) = n"
    by (elim insertE emptyE) simp_all
  then obtain d where "d \<in> set ''0123456789abcdefABCDEF''" and "(of_char d :: nat) = of_char c"
    unfolding n_def by blast
  then show "hex_digit c"
    by (simp only: of_char_eq_iff hex_digit_def)
qed

lemma hex_DecodeString_one:
  "(\<exists>ds. hex_DecodeString t = Some ds \<and> length ds = 1) \<longleftrightarrow> hex_byte_token t"
proof (cases t)
  case Nil
  then show ?thesis by (simp add: hex_byte_token_def)
next
  case (Cons p t1)
  show ?thesis
  proof (cases t1)
    case Nil
    with Cons show ?thesis by (simp add: hex_byte_token_def)
  next
    case (Cons q rest)
    have "rest = [] \<longleftrightarrow> length rest = 0" by simp
    moreover have "hex_DecodeString rest = Some [] \<longleftrightarrow> rest = []"
      by (cases rest rule: hex_DecodeString.cases) (auto split: option.splits)
    ultimately show ?thesis
      using \<open>t = p # t1\<close> Cons fromHexChar_hex_digit [of p] fromHexChar_hex_digit [of q]
      by (auto simp: hex_byte_token_def split: option.splits)
  qed
qed

lemma NewPatternMatcher_loop_fails_iff:
  "isl (NewPatternMatcher_loop parts i pbytes wmask) \<longleftrightarrow>
     (\<exists>t\<in>set parts. t \<noteq> ''??'' \<and> \<not> hex_byte_token t)"
proof (induction parts arbitrary: i pbytes wmask)
  case Nil
  then show ?case by simp
next
  case (Cons part rest)
  show ?case
  proof (cases "part = ''??''")
    case True
    then show ?thesis using Cons.IH by simp
  next
    case False
    show ?thesis
    proof (cases "hex_byte_token part")
      case True
      then obtain ds where "hex_DecodeString part = Some ds" "length ds = 1"
        using hex_DecodeString_one by blast
      with False True show ?thesis using Cons.IH by simp
    next
      case nb: False
      then have "\<And>ds. hex_DecodeString part = Some ds \<Longrightarrow> length ds \<noteq> 1"
        using hex_DecodeString_one by blast
      with False nb show ?thesis by (auto split: option.splits)
    qed
  qed
qed

lemma NewPatternMatcher_loop_lengths:
  "NewPatternMatcher_loop parts i pbytes wmask = Inr (pbytes', wmask') \<Longrightarrow>
   length pbytes' = length pbytes \<and> length wmask' = length wmask"
proof (induction parts arbitrary: i pbytes wmask)
  case Nil
  then show ?case by simp
next
  case (Cons part rest)
  then show ?case
    by (fastforce split: if_splits option.splits)
qed

lemma NewPatternMatcher_fails_iff:
  "isl (NewPatternMatcher pattern) \<longleftrightarrow>
     Fields pattern = [] \<or> (\<exists>t\<in>set (Fields pattern). t \<noteq> ''??'' \<and> \<not> hex_byte_token t)"
proof (cases "Fields pattern = []")
  case True
  then show ?thesis by (simp add: NewPatternMatcher_def)
next
  case False
  let ?r = "NewPatternMatcher_loop (Fields pattern) 0 (replicate (length (Fields pattern)) 0)
              (replicate (length (Fields pattern)) False)"
  have "isl (NewPatternMatcher pattern) \<longleftrightarrow> isl ?r"
    using False by (cases ?r) (auto simp: NewPatternMatcher_def Let_def)
  with False show ?thesis by (simp add: NewPatternMatcher_loop_fails_iff)
qed

lemma NewPatternMatcher_ok:
  assumes "NewPatternMatcher pattern = Inr pm"
  shows "matcher_ok pm" and "patternLength pm = length (Fields pattern)" and "0 < patternLength pm"
proof -
  let ?n = "length (Fields pattern)"
  from assms have ne: "?n \<noteq> 0"
    by (auto simp: NewPatternMatcher_def Let_def split: if_splits)
  from assms ne obtain pb wm where
    loop: "NewPatternMatcher_loop (Fields pattern) 0 (replicate ?n 0) (replicate ?n False) = Inr (pb, wm)"
    and pm: "pm = \<lparr>patternBytes = pb, wildcardMask = wm, patternLength = ?n\<rparr>"
    by (auto simp: NewPatternMatcher_def Let_def split: if_splits sum.splits)
  from NewPatternMatcher_loop_lengths [OF loop] pm ne
  show "matcher_ok pm" and "patternLength pm = length (Fields pattern)" and "0 < patternLength pm"
    by (simp_all add: matcher_ok_def)
qed

subsection \<open>Tokens decode to their bytes\<close>

lemma fromHexChar_upperhex: "d < 16 \<Longrightarrow> fromHexChar (upperhex d) = Some (of_nat d)"
proof -
  assume "d < 16"
  then have "d = 0 \<or> d = 1 \<or> d = 2 \<or> d = 3 \<or> d = 4 \<or> d = 5 \<or> d = 6 \<or> d = 7 \<or> d = 8
             \<or> d = 9 \<or> d = 10 \<or> d = 11 \<or> d = 12 \<or> d = 13 \<or> d = 14 \<or> d = 15"
    by arith
  then show ?thesis
    by (elim disjE) (simp_all add: upperhex_def fromHexChar_def)
qed

lemma nibbles_word:
  assumes "h < 16" "l < 16"
  shows "push_bit 4 (of_nat h :: byte) OR of_nat l = of_nat (16 * h + l)"
proof -
  from assms(1)
  have "h = 0 \<or> h = 1 \<or> h = 2 \<or> h = 3 \<or> h = 4 \<or> h = 5 \<or> h = 6 \<or> h = 7 \<or> h = 8
        \<or> h = 9 \<or> h = 10 \<or> h = 11 \<or> h = 12 \<or> h = 13 \<or> h = 14 \<or> h = 15"
    by arith
  moreover from assms(2)
  have "l = 0 \<or> l = 1 \<or> l = 2 \<or> l = 3 \<or> l = 4 \<or> l = 5 \<or> l = 6 \<or> l = 7 \<or> l = 8
        \<or> l = 9 \<or> l = 10 \<or> l = 11 \<or> l = 12 \<or> l = 13 \<or> l = 14 \<or> l = 15"
    by arith
  ultimately show ?thesis
    by (elim disjE) simp_all
qed

lemma Sprintf_02X_decodes: "hex_DecodeString (Sprintf_02X c) = Some [of_char c]"
proof -
  let ?n = "of_char c :: nat"
  have n: "?n < 256" by (rule nat_of_char_less_256)
  then have h: "?n div 16 < 16" and l: "?n mod 16 < 16" by arith+
  have "16 * (?n div 16) + ?n mod 16 = ?n" by simp
  then have "push_bit 4 (of_nat (?n div 16) :: byte) OR of_nat (?n mod 16) = of_nat ?n"
    using nibbles_word [OF h l] by simp
  moreover have "(of_nat ?n :: byte) = of_char c" by (rule of_nat_of_char)
  ultimately show ?thesis
    by (simp add: Sprintf_02X_def fromHexChar_upperhex [OF h] fromHexChar_upperhex [OF l])
qed

subsection \<open>From a search string to a matcher\<close>

lemma NewPatternMatcher_loop_contents:
  assumes "NewPatternMatcher_loop parts i pbytes wmask = Inr (pbytes', wmask')"
    and "i + length parts \<le> length pbytes" "length wmask = length pbytes"
  shows "(\<forall>k<i. pbytes' ! k = pbytes ! k \<and> wmask' ! k = wmask ! k)
       \<and> (\<forall>k<length parts.
             (parts ! k = ''??'' \<longrightarrow> wmask' ! (i + k) \<and> pbytes' ! (i + k) = pbytes ! (i + k))
           \<and> (parts ! k \<noteq> ''??'' \<longrightarrow> wmask' ! (i + k) = wmask ! (i + k)
                \<and> hex_DecodeString (parts ! k) = Some [pbytes' ! (i + k)]))"
  using assms
proof (induction parts arbitrary: i pbytes wmask)
  case Nil
  then show ?case by simp
next
  case (Cons part rest)
  show ?case
  proof (cases "part = ''??''")
    case True
    with Cons.prems(1)
    have loop: "NewPatternMatcher_loop rest (i + 1) pbytes (wmask[i := True]) = Inr (pbytes', wmask')"
      by simp
    from Cons.prems(2,3) have b: "i + 1 + length rest \<le> length pbytes"
      "length (wmask[i := True]) = length pbytes" "i < length wmask"
      by simp_all
    note IH = Cons.IH [OF loop b(1,2)]
    have low: "pbytes' ! k = pbytes ! k \<and> wmask' ! k = wmask ! k" if "k < i" for k
      using that IH by simp
    have wild: "wmask' ! (i + k) \<and> pbytes' ! (i + k) = pbytes ! (i + k)"
      if k: "k < length (part # rest)" and q: "(part # rest) ! k = ''??''" for k
    proof (cases k)
      case 0
      with IH b(3) show ?thesis by simp
    next
      case (Suc k')
      with k q IH show ?thesis by simp
    qed
    have lit: "wmask' ! (i + k) = wmask ! (i + k)
               \<and> hex_DecodeString ((part # rest) ! k) = Some [pbytes' ! (i + k)]"
      if k: "k < length (part # rest)" and q: "(part # rest) ! k \<noteq> ''??''" for k
    proof -
      from q True obtain k' where k': "k = Suc k'" by (cases k) auto
      with k q IH have "wmask' ! (i + k) = (wmask[i := True]) ! (i + k)"
        "hex_DecodeString ((part # rest) ! k) = Some [pbytes' ! (i + k)]"
        by simp_all
      with k' show ?thesis by simp
    qed
    from low wild lit show ?thesis by blast
  next
    case False
    with Cons.prems(1) obtain b where
      dec: "hex_DecodeString part = Some [b]"
      and loop: "NewPatternMatcher_loop rest (i + 1) (pbytes[i := b]) wmask = Inr (pbytes', wmask')"
      by (auto split: option.splits if_splits simp: length_Suc_conv)
    from Cons.prems(2,3) have b: "i + 1 + length rest \<le> length (pbytes[i := b])"
      "length wmask = length (pbytes[i := b])" "i < length pbytes"
      by simp_all
    note IH = Cons.IH [OF loop b(1,2)]
    have low: "pbytes' ! k = pbytes ! k \<and> wmask' ! k = wmask ! k" if "k < i" for k
      using that IH by simp
    have wild: "wmask' ! (i + k) \<and> pbytes' ! (i + k) = pbytes ! (i + k)"
      if k: "k < length (part # rest)" and q: "(part # rest) ! k = ''??''" for k
    proof -
      from q False obtain k' where k': "k = Suc k'" by (cases k) auto
      with k q IH have "wmask' ! (i + k)" "pbytes' ! (i + k) = (pbytes[i := b]) ! (i + k)"
        by simp_all
      with k' show ?thesis by simp
    qed
    have lit: "wmask' ! (i + k) = wmask ! (i + k)
               \<and> hex_DecodeString ((part # rest) ! k) = Some [pbytes' ! (i + k)]"
      if k: "k < length (part # rest)" and q: "(part # rest) ! k \<noteq> ''??''" for k
    proof (cases k)
      case 0
      with IH b(3) dec show ?thesis by simp
    next
      case (Suc k')
      with k q IH show ?thesis by simp
    qed
    from low wild lit show ?thesis by blast
  qed
qed

lemma matcher_contents:
  assumes "NewPatternMatcher pattern = Inr pm"
  shows "matcher_ok pm \<and> 0 < patternLength pm \<and> patternLength pm = length (Fields pattern)
       \<and> (\<forall>k<patternLength pm.
             (wildcardMask pm ! k \<longleftrightarrow> Fields pattern ! k = ''??'')
           \<and> (Fields pattern ! k \<noteq> ''??''
                \<longrightarrow> hex_DecodeString (Fields pattern ! k) = Some [patternBytes pm ! k]))"
proof -
  let ?parts = "Fields pattern"
  let ?n = "length ?parts"
  from assms have ne: "?n \<noteq> 0"
    by (auto simp: NewPatternMatcher_def Let_def split: if_splits)
  from assms ne obtain pb wm where
    loop: "NewPatternMatcher_loop ?parts 0 (replicate ?n 0) (replicate ?n False) = Inr (pb, wm)"
    and pm: "pm = \<lparr>patternBytes = pb, wildcardMask = wm, patternLength = ?n\<rparr>"
    by (auto simp: NewPatternMatcher_def Let_def split: if_splits sum.splits)
  from NewPatternMatcher_loop_contents [OF loop]
  have c: "\<forall>k<?n. (?parts ! k = ''??'' \<longrightarrow> wm ! k)
           \<and> (?parts ! k \<noteq> ''??'' \<longrightarrow> wm ! k = replicate ?n False ! k
                \<and> hex_DecodeString (?parts ! k) = Some [pb ! k])"
    by simp
  have "\<forall>k<?n. (wm ! k \<longleftrightarrow> ?parts ! k = ''??'')
           \<and> (?parts ! k \<noteq> ''??'' \<longrightarrow> hex_DecodeString (?parts ! k) = Some [pb ! k])"
  proof (intro allI impI)
    fix k assume k: "k < ?n"
    with c show "(wm ! k \<longleftrightarrow> ?parts ! k = ''??'')
           \<and> (?parts ! k \<noteq> ''??'' \<longrightarrow> hex_DecodeString (?parts ! k) = Some [pb ! k])"
      by (cases "?parts ! k = ''??''") auto
  qed
  with NewPatternMatcher_ok [OF assms] pm show ?thesis by simp
qed

lemma plain_char_not_lead:
  assumes "plain_char c"
  shows "\<not> asciiSpace c" "c \<noteq> CHR 0xC2" "c \<noteq> CHR 0xE1" "c \<noteq> CHR 0xE2" "c \<noteq> CHR 0xE3"
  using assms by (auto simp: plain_char_def)

lemma space_width_plain: "plain_char c \<Longrightarrow> space_width (c # cs) = 0"
proof -
  assume p: "plain_char c"
  note n = plain_char_not_lead [OF p]
  show ?thesis
  proof (cases cs)
    case Nil
    with n show ?thesis by simp
  next
    case (Cons d ds)
    with n show ?thesis by (cases ds) simp_all
  qed
qed

lemma space_width_blank: "space_width (CHR '' '' # cs) = 1"
proof (cases cs)
  case Nil
  then show ?thesis by (simp add: asciiSpace_def)
next
  case (Cons d ds)
  then show ?thesis by (cases ds) (simp_all add: asciiSpace_def)
qed

lemma Fields_scan_plain:
  "\<forall>c\<in>set t. plain_char c \<Longrightarrow> Fields_scan 0 cur (t @ rest) = Fields_scan 0 (cur @ t) rest"
  by (induction t arbitrary: cur) (simp_all add: space_width_plain)

lemma Fields_join_space:
  "\<forall>t\<in>set toks. t \<noteq> [] \<and> (\<forall>c\<in>set t. plain_char c) \<Longrightarrow> Fields (join_space toks) = toks"
  unfolding Fields_def
proof (induction toks rule: join_space.induct)
  case 1
  then show ?case by simp
next
  case (2 t)
  then have "Fields_scan 0 [] (t @ []) = Fields_scan 0 ([] @ t) []"
    by (intro Fields_scan_plain) simp
  with 2 show ?case by simp
next
  case (3 t u ts)
  then have "Fields_scan 0 [] (t @ CHR '' '' # join_space (u # ts))
             = Fields_scan 0 ([] @ t) (CHR '' '' # join_space (u # ts))"
    by (intro Fields_scan_plain) simp
  with 3 show ?case by (simp add: space_width_blank)
qed

lemma upperhex_plain: "d < 16 \<Longrightarrow> plain_char (upperhex d) \<and> upperhex d \<noteq> CHR ''?''"
proof -
  assume "d < 16"
  then have "d = 0 \<or> d = 1 \<or> d = 2 \<or> d = 3 \<or> d = 4 \<or> d = 5 \<or> d = 6 \<or> d = 7 \<or> d = 8
             \<or> d = 9 \<or> d = 10 \<or> d = 11 \<or> d = 12 \<or> d = 13 \<or> d = 14 \<or> d = 15"
    by arith
  then show ?thesis
    by (elim disjE) (simp_all add: upperhex_def plain_char_def asciiSpace_def)
qed

lemma token_plain:
  "StringToPattern_token s k \<noteq> [] \<and> (\<forall>c\<in>set (StringToPattern_token s k). plain_char c)"
proof -
  have q: "plain_char CHR ''?''" by (simp add: plain_char_def asciiSpace_def)
  have "(of_char c :: nat) div 16 < 16" "(of_char c :: nat) mod 16 < 16" for c
    using nat_of_char_less_256 [of c] by arith+
  then have "\<forall>x\<in>set (Sprintf_02X c). plain_char x" for c
    by (simp add: Sprintf_02X_def upperhex_plain)
  with q show ?thesis
    by (simp add: StringToPattern_token_def Let_def Sprintf_02X_def)
qed

lemma token_wildcard_iff:
  "StringToPattern_token s k = ''??'' \<longleftrightarrow> length s \<le> k \<or> s ! k = CHR ''?''"
proof -
  have "(of_char c :: nat) div 16 < 16" for c
    using nat_of_char_less_256 [of c] by arith
  then have "Sprintf_02X c \<noteq> ''??''" for c
    using upperhex_plain [of "(of_char c :: nat) div 16"] by (simp add: Sprintf_02X_def)
  then show ?thesis by (auto simp: StringToPattern_token_def Let_def)
qed

lemma compiled_pattern:
  assumes "searchStr \<noteq> []"
  shows "\<exists>pm. NewPatternMatcher (StringToPattern searchStr minLength) = Inr pm
           \<and> matcher_ok pm
           \<and> int (patternLength pm) = max (int (length searchStr)) minLength
           \<and> (\<forall>k<patternLength pm.
                 (wildcardMask pm ! k \<longleftrightarrow> length searchStr \<le> k \<or> searchStr ! k = CHR ''?'')
               \<and> (k < length searchStr \<and> searchStr ! k \<noteq> CHR ''?''
                    \<longrightarrow> patternBytes pm ! k = of_char (searchStr ! k)))"
proof -
  let ?n = "nat (max (int (length searchStr)) minLength)"
  let ?toks = "map (StringToPattern_token searchStr) [0..<?n]"
  let ?p = "StringToPattern searchStr minLength"
  have n: "0 < ?n" using assms by (simp add: less_max_iff_disj)
  have p: "?p = join_space ?toks" using assms by (rule StringToPattern_join)
  have F: "Fields ?p = ?toks"
    unfolding p by (rule Fields_join_space) (simp add: token_plain)
  have tok: "t = ''??'' \<or> hex_byte_token t" if "t \<in> set ?toks" for t
  proof -
    from that obtain k where "t = StringToPattern_token searchStr k" by auto
    moreover have "hex_byte_token (Sprintf_02X c)" for c
      using Sprintf_02X_decodes [of c] hex_DecodeString_one [of "Sprintf_02X c"] by simp
    ultimately show ?thesis by (simp add: StringToPattern_token_def Let_def)
  qed
  have "\<not> isl (NewPatternMatcher ?p)"
    using n tok by (auto simp: NewPatternMatcher_fails_iff F)
  then obtain pm where pm: "NewPatternMatcher ?p = Inr pm" by (cases "NewPatternMatcher ?p") auto
  note C = matcher_contents [OF pm, unfolded F]
  from C have len: "patternLength pm = ?n" by simp
  have "(wildcardMask pm ! k \<longleftrightarrow> length searchStr \<le> k \<or> searchStr ! k = CHR ''?'')
        \<and> (k < length searchStr \<and> searchStr ! k \<noteq> CHR ''?''
             \<longrightarrow> patternBytes pm ! k = of_char (searchStr ! k))"
    if k: "k < patternLength pm" for k
  proof -
    from k len have kn: "k < ?n" by simp
    then have tk: "?toks ! k = StringToPattern_token searchStr k" by simp
    from C k have w: "wildcardMask pm ! k \<longleftrightarrow> ?toks ! k = ''??''"
      and d: "?toks ! k \<noteq> ''??'' \<longrightarrow> hex_DecodeString (?toks ! k) = Some [patternBytes pm ! k]"
      by blast+
    have "patternBytes pm ! k = of_char (searchStr ! k)"
      if "k < length searchStr" "searchStr ! k \<noteq> CHR ''?''"
    proof -
      from that have "StringToPattern_token searchStr k = Sprintf_02X (searchStr ! k)"
        by (simp add: StringToPattern_token_def Let_def)
      moreover from that have "StringToPattern_token searchStr k \<noteq> ''??''"
        by (simp add: token_wildcard_iff)
      ultimately show ?thesis using d tk by (simp add: Sprintf_02X_decodes)
    qed
    with w tk show ?thesis by (simp add: token_wildcard_iff)
  qed
  moreover have "int (patternLength pm) = max (int (length searchStr)) minLength"
    using len by (simp add: le_max_iff_disj)
  ultimately show ?thesis using pm C by blast
qed

lemma literal_pattern_match:
  assumes "s \<noteq> []" and "CHR ''?'' \<notin> set s" and "minLength \<le> int (length s)"
  shows "\<exists>pm. NewPatternMatcher (StringToPattern s minLength) = Inr pm
           \<and> FindMatches pm (map of_char s) ignoreCase = [0]"
proof -
  from compiled_pattern [OF assms(1), of minLength] obtain pm where
    pm: "NewPatternMatcher (StringToPattern s minLength) = Inr pm"
    and len: "int (patternLength pm) = max (int (length s)) minLength"
    and c: "\<forall>k<patternLength pm.
                 (wildcardMask pm ! k \<longleftrightarrow> length s \<le> k \<or> s ! k = CHR ''?'')
               \<and> (k < length s \<and> s ! k \<noteq> CHR ''?'' \<longrightarrow> patternBytes pm ! k = of_char (s ! k))"
    by blast
  from len assms(3) have n: "patternLength pm = length s" by simp
  have "occurs_at pm (map of_char s) ignoreCase 0"
    unfolding occurs_at_def
  proof (intro allI impI)
    fix j assume j: "j < patternLength pm"
    with n assms(2) have "s ! j \<noteq> CHR ''?''" by (metis nth_mem)
    with c j n have "patternBytes pm ! j = of_char (s ! j)" by simp
    with j n show "wildcardMask pm ! j
        \<or> eq_fold ignoreCase (map of_char s ! (0 + j)) (patternBytes pm ! j)"
      by (simp add: eq_fold_def)
  qed
  with n assms(1) have "FindMatches pm (map of_char s) ignoreCase = [0]"
    by (simp add: FindMatches_filter)
  with pm show ?thesis by blast
qed

section \<open>Properties of the scan engine\<close>

subsection \<open>scanRegion\<close>

lemma copy_full: "length src = n \<Longrightarrow> copy (replicate n z) src = src"
  by (simp add: copy_def)

lemma delivered_append: "delivered (xs @ ys) = delivered xs @ delivered ys"
  by (induction xs rule: delivered.induct) simp_all

lemma delivered_map_Deliver: "delivered (map Deliver ms) = ms"
  by (induction ms) simp_all

lemma added_append: "added tr (tr @ new) = new"
  by (simp add: added_def)

lemma scanRegion_matches_trace:
  "scanRegion_matches env opts pm base buffer offs st = (err, st') \<Longrightarrow>
   \<exists>ks rest. filter (\<lambda>off. off + patternLength pm \<le> length buffer) offs = ks @ rest
     \<and> snd st' = snd st @ map (\<lambda>off. Deliver (match_at pm base buffer off)) ks"
proof (induction offs arbitrary: st)
  case Nil
  then show ?case by auto
next
  case (Cons off offs)
  show ?case
  proof (cases "ctx_Err env (fst st)")
    case (Some e)
    with Cons.prems have "st' = st" by simp
    then show ?thesis
      by (intro exI [of _ "[]"]
            exI [of _ "filter (\<lambda>off. off + patternLength pm \<le> length buffer) (off # offs)"])
         simp
  next
    case None
    show ?thesis
    proof (cases "off + patternLength pm > length buffer")
      case True
      with None Cons.prems
      have "scanRegion_matches env opts pm base buffer offs st = (err, st')"
        by (simp add: GetPatternLength_def)
      from Cons.IH [OF this] True show ?thesis by simp
    next
      case False
      let ?m = "match_at pm base buffer off"
      let ?ans = "Handler opts ?m (fst st)"
      let ?st1 = "(snd ?ans, snd st @ [Deliver ?m])"
      have m: "\<lparr>Address = base + of_nat off,
                Data = copy (replicate (patternLength pm) 0)
                         (slice buffer off (off + patternLength pm))\<rparr> = ?m"
        using False by (simp add: match_at_def slice_def copy_full)
      show ?thesis
      proof (cases "fst ?ans")
        case stop: False
        with None \<open>\<not> off + patternLength pm > length buffer\<close> Cons.prems m
        have "st' = ?st1" by (simp add: GetPatternLength_def Let_def)
        with \<open>\<not> off + patternLength pm > length buffer\<close> show ?thesis
          by (intro exI [of _ "[off]"]
                exI [of _ "filter (\<lambda>off. off + patternLength pm \<le> length buffer) offs"])
             simp
      next
        case True
        with None \<open>\<not> off + patternLength pm > length buffer\<close> Cons.prems m
        have "scanRegion_matches env opts pm base buffer offs ?st1 = (err, st')"
          by (simp add: GetPatternLength_def Let_def)
        from Cons.IH [OF this] obtain ks rest where
          "filter (\<lambda>off. off + patternLength pm \<le> length buffer) offs = ks @ rest"
          "snd st' = snd ?st1 @ map (\<lambda>off. Deliver (match_at pm base buffer off)) ks"
          by blast
        with \<open>\<not> off + patternLength pm > length buffer\<close> show ?thesis
          by (intro exI [of _ "off # ks"] exI [of _ rest]) simp
      qed
    qed
  qed
qed

lemma scanRegion_matches_error:
  "scanRegion_matches env opts pm base buffer offs st = (Some x, st') \<Longrightarrow>
   \<exists>e. x = ContextError e \<and> ctx_Err env (fst st') = Some e"
proof (induction offs arbitrary: st)
  case Nil
  then show ?case by simp
next
  case (Cons off offs)
  then show ?case
    by (auto simp: Let_def split: option.splits if_splits)
qed

lemma FindMatches_Nil: "FindMatches pm [] ic = []"
  by (auto simp: FindMatches_def)

lemma FindMatches_filter_in_range:
  "filter (\<lambda>off. off + patternLength pm \<le> length buffer) (FindMatches pm buffer ic)
   = FindMatches pm buffer ic"
  by (simp add: filter_id_conv FindMatches_in_range)

lemma scanRegion_empty:
  "read_end base rsize maxA \<le> base \<Longrightarrow>
   scanRegion env opts pm base rsize maxA st = (None, st)"
  by (simp add: scanRegion_def read_end_def Let_def)

lemma scanRegion_read:
  "\<not> read_end base rsize maxA \<le> base \<Longrightarrow>
   scanRegion env opts pm base rsize maxA st =
     (let n = read_end base rsize maxA - base;
          st1 = (snd (ReadProcessMemory env (fst st) base n), snd st @ [Read base n]);
          buffer = region_buffer env (fst st) base n
      in if buffer = [] then (None, st1)
         else scanRegion_matches env opts pm base buffer
                (FindMatches pm buffer (IgnoreCase opts)) st1)"
  by (simp add: scanRegion_def read_end_def region_buffer_def Let_def split: option.splits)

lemma scanRegion_trace:
  assumes "scanRegion env opts pm base rsize maxA st = (err, st')"
    and "\<not> read_end base rsize maxA \<le> base"
  shows "\<exists>ks rest.
           FindMatches pm (region_buffer env (fst st) base (read_end base rsize maxA - base))
             (IgnoreCase opts) = ks @ rest
           \<and> snd st' = snd st @ Read base (read_end base rsize maxA - base)
                # map (\<lambda>off. Deliver (match_at pm base
                     (region_buffer env (fst st) base (read_end base rsize maxA - base)) off)) ks"
proof -
  let ?n = "read_end base rsize maxA - base"
  let ?st1 = "(snd (ReadProcessMemory env (fst st) base ?n), snd st @ [Read base ?n])"
  let ?buf = "region_buffer env (fst st) base ?n"
  show ?thesis
  proof (cases "?buf = []")
    case True
    with assms have "st' = ?st1" by (simp add: scanRegion_read Let_def)
    with True show ?thesis by (simp add: FindMatches_Nil)
  next
    case False
    with assms
    have "scanRegion_matches env opts pm base ?buf (FindMatches pm ?buf (IgnoreCase opts)) ?st1
          = (err, st')"
      by (simp add: scanRegion_read Let_def)
    from scanRegion_matches_trace [OF this] show ?thesis
      by (simp add: FindMatches_filter_in_range)
  qed
qed

lemma scanRegion_error:
  "scanRegion env opts pm base rsize maxA st = (Some x, st') \<Longrightarrow>
   \<exists>e. x = ContextError e \<and> ctx_Err env (fst st') = Some e"
  by (auto simp: scanRegion_def Let_def split: if_splits option.splits
           dest: scanRegion_matches_error)

lemma region_buffer_length: "length (region_buffer env w base n) \<le> unat n"
  by (simp add: region_buffer_def split: option.splits)

lemma address_strict_mono:
  fixes base rend :: "64 word"
  assumes "base < rend" "i < j" "j < unat (rend - base)"
  shows "base + of_nat i < base + of_nat j"
proof -
  have sub: "unat (rend - base) = unat rend - unat base"
    using assms(1) by (simp add: unat_sub word_less_nat_alt word_le_nat_alt)
  have bound: "unat base + j < 2 ^ 64"
    using assms(3) sub unsigned_less [of rend, where 'a = nat] by simp
  have uj: "unat (of_nat j :: 64 word) = j" "unat (of_nat i :: 64 word) = i"
    using bound assms(2) by (simp_all add: unat_of_nat)
  have "unat (base + of_nat j) = unat base + j" "unat (base + of_nat i) = unat base + i"
    using bound assms(2) uj by (simp_all add: unat_add_lem [THEN iffD1])
  with assms(2) show ?thesis by (simp add: word_less_nat_alt)
qed

lemma scanRegion_delivered:
  assumes "scanRegion env opts pm base rsize maxA st = (err, st')"
  shows "\<exists>ks rest.
           FindMatches pm (region_buffer env (fst st) base (read_end base rsize maxA - base))
             (IgnoreCase opts) = ks @ rest
           \<and> delivered (added (snd st) (snd st'))
               = map (match_at pm base
                   (region_buffer env (fst st) base (read_end base rsize maxA - base))) ks
           \<and> (ks \<noteq> [] \<longrightarrow> base < read_end base rsize maxA)"
proof (cases "read_end base rsize maxA \<le> base")
  case True
  with assms have "st' = st" by (simp add: scanRegion_empty)
  then show ?thesis by (simp add: added_def)
next
  case False
  let ?buf = "region_buffer env (fst st) base (read_end base rsize maxA - base)"
  from scanRegion_trace [OF assms False] obtain ks rest where
    ks: "FindMatches pm ?buf (IgnoreCase opts) = ks @ rest"
    and tr: "snd st' = snd st @ Read base (read_end base rsize maxA - base)
        # map (\<lambda>off. Deliver (match_at pm base ?buf off)) ks"
    by blast
  have "map (\<lambda>off. Deliver (match_at pm base ?buf off)) ks
        = map Deliver (map (match_at pm base ?buf) ks)"
    by simp
  with tr have "delivered (added (snd st) (snd st')) = map (match_at pm base ?buf) ks"
    by (simp add: added_def delivered_map_Deliver del: map_map)
  moreover from False have "base < read_end base rsize maxA" by simp
  ultimately show ?thesis using ks by blast
qed

lemma scanRegion_extends:
  assumes "scanRegion env opts pm base rsize maxA st = (err, st')"
  shows "\<exists>new. snd st' = snd st @ new"
proof (cases "read_end base rsize maxA \<le> base")
  case True
  with assms show ?thesis by (simp add: scanRegion_empty)
next
  case False
  from scanRegion_trace [OF assms False] show ?thesis by auto
qed

subsection \<open>The loop of Scan\<close>

lemma Scan_loop_done:
  "\<not> a < maxA \<Longrightarrow> Scan_loop env opts pm maxA a st = Some (None, st)"
  by (subst Scan_loop.simps) simp

lemma Scan_loop_return:
  "a < maxA \<Longrightarrow> Scan_body env opts pm maxA a st = Inl r \<Longrightarrow>
   Scan_loop env opts pm maxA a st = Some r"
  by (subst Scan_loop.simps) simp

lemma Scan_loop_continue:
  "a < maxA \<Longrightarrow> Scan_body env opts pm maxA a st = Inr c \<Longrightarrow>
   Scan_loop env opts pm maxA a st = Scan_loop env opts pm maxA (fst c) (snd c)"
  by (subst Scan_loop.simps) simp

lemma Scan_body_cancelled:
  "ctx_Err env (fst st) = Some e \<Longrightarrow>
   Scan_body env opts pm maxA a st = Inl (Some (ContextError e), st)"
  by (simp add: Scan_body_def)

lemma Scan_body_query_failed:
  "ctx_Err env (fst st) = None \<Longrightarrow> fst (VirtualQueryEx env (fst st) a) = None \<Longrightarrow>
   Scan_body env opts pm maxA a st
     = Inl (None, snd (VirtualQueryEx env (fst st) a), snd st @ [Query a])"
  by (simp add: Scan_body_def Let_def)

lemma Scan_body_skip:
  "ctx_Err env (fst st) = None \<Longrightarrow> fst (VirtualQueryEx env (fst st) a) = Some mbi \<Longrightarrow>
   \<not> isReadableRegion mbi \<Longrightarrow>
   Scan_body env opts pm maxA a st
     = Inr (next_address mbi, snd (VirtualQueryEx env (fst st) a), snd st @ [Query a])"
  by (simp add: Scan_body_def Let_def)

lemma Scan_body_scan:
  "ctx_Err env (fst st) = None \<Longrightarrow> fst (VirtualQueryEx env (fst st) a) = Some mbi \<Longrightarrow>
   isReadableRegion mbi \<Longrightarrow>
   scanRegion env opts pm (BaseAddress mbi) (RegionSize mbi) maxA
     (snd (VirtualQueryEx env (fst st) a), snd st @ [Query a]) = (err, st') \<Longrightarrow>
   Scan_body env opts pm maxA a st
     = (if err \<noteq> None then Inl (err, st') else Inr (next_address mbi, st'))"
  by (simp add: Scan_body_def Let_def)

lemma Scan_body_Inr:
  "Scan_body env opts pm maxA a st = Inr c \<Longrightarrow>
   \<exists>mbi. fst (VirtualQueryEx env (fst st) a) = Some mbi \<and> fst c = next_address mbi"
  by (auto simp: Scan_body_def Let_def split: option.splits if_splits)

lemma Scan_body_Inl_error:
  assumes "Scan_body env opts pm maxA a st = Inl (Some x, st')"
  shows "\<exists>e. x = ContextError e \<and> ctx_Err env (fst st') = Some e"
proof (cases "ctx_Err env (fst st)")
  case (Some e)
  with assms show ?thesis by (simp add: Scan_body_cancelled)
next
  case None
  show ?thesis
  proof (cases "fst (VirtualQueryEx env (fst st) a)")
    case qn: None
    with None assms show ?thesis by (simp add: Scan_body_query_failed)
  next
    case (Some mbi)
    show ?thesis
    proof (cases "isReadableRegion mbi")
      case False
      with None Some assms show ?thesis by (simp add: Scan_body_skip)
    next
      case True
      obtain err st1 where sr: "scanRegion env opts pm (BaseAddress mbi) (RegionSize mbi) maxA
          (snd (VirtualQueryEx env (fst st) a), snd st @ [Query a]) = (err, st1)"
        by (cases "scanRegion env opts pm (BaseAddress mbi) (RegionSize mbi) maxA
          (snd (VirtualQueryEx env (fst st) a), snd st @ [Query a])") blast
      from Scan_body_scan [OF None Some True sr] assms
      have "err = Some x" "st1 = st'" by (auto split: if_splits)
      with sr show ?thesis by (auto dest: scanRegion_error)
    qed
  qed
qed

lemma Scan_loop_error_observed:
  assumes "Scan_loop env opts pm maxA a st = Some y"
  shows "\<forall>x. fst y = Some x \<longrightarrow> (\<exists>e. x = ContextError e \<and> ctx_Err env (fst (snd y)) = Some e)"
proof (rule Scan_loop.raw_induct [where P = "\<lambda>env opts pm maxA a st y.
         \<forall>x. fst y = Some x \<longrightarrow> (\<exists>e. x = ContextError e \<and> ctx_Err env (fst (snd y)) = Some e)",
         OF _ assms], goal_cases)
  case (1 loop env opts pm maxA a st y)
  show ?case
  proof (cases "a < maxA")
    case False
    with 1(2) show ?thesis by auto
  next
    case True
    show ?thesis
    proof (cases "Scan_body env opts pm maxA a st")
      case (Inl r)
      with True 1(2) have y: "Scan_body env opts pm maxA a st = Inl y" by simp
      show ?thesis
      proof (intro allI impI)
        fix x assume "fst y = Some x"
        then have "y = (Some x, snd y)" by (cases y) simp
        with y have "Scan_body env opts pm maxA a st = Inl (Some x, snd y)" by simp
        from Scan_body_Inl_error [OF this]
        show "\<exists>e. x = ContextError e \<and> ctx_Err env (fst (snd y)) = Some e" .
      qed
    next
      case (Inr c)
      with True 1(2) have "loop env opts pm maxA (fst c) (snd c) = Some y" by simp
      then show ?thesis by (rule 1(1))
    qed
  qed
qed

lemma Scan_body_extends:
  "\<exists>new. snd (body_state (Scan_body env opts pm maxA a st)) = snd st @ new"
proof (cases "ctx_Err env (fst st)")
  case (Some e)
  then show ?thesis by (simp add: Scan_body_cancelled body_state_def)
next
  case None
  show ?thesis
  proof (cases "fst (VirtualQueryEx env (fst st) a)")
    case qn: None
    with None show ?thesis by (simp add: Scan_body_query_failed body_state_def)
  next
    case (Some mbi)
    show ?thesis
    proof (cases "isReadableRegion mbi")
      case False
      with None Some show ?thesis by (simp add: Scan_body_skip body_state_def)
    next
      case True
      obtain err st1 where sr: "scanRegion env opts pm (BaseAddress mbi) (RegionSize mbi) maxA
          (snd (VirtualQueryEx env (fst st) a), snd st @ [Query a]) = (err, st1)"
        by (cases "scanRegion env opts pm (BaseAddress mbi) (RegionSize mbi) maxA
          (snd (VirtualQueryEx env (fst st) a), snd st @ [Query a])") blast
      from scanRegion_extends [OF sr] obtain new where "snd st1 = snd st @ Query a # new"
        by auto
      then show ?thesis
        by (simp add: Scan_body_scan [OF None Some True sr] body_state_def)
    qed
  qed
qed

lemma Scan_loop_extends:
  assumes "Scan_loop env opts pm maxA a st = Some y"
  shows "\<exists>new. snd (snd y) = snd st @ new"
proof (rule Scan_loop.raw_induct [where P = "\<lambda>env opts pm maxA a st y.
         \<exists>new. snd (snd y) = snd st @ new", OF _ assms], goal_cases)
  case (1 loop env opts pm maxA a st y)
  show ?case
  proof (cases "a < maxA")
    case False
    with 1(2) show ?thesis by auto
  next
    case True
    from Scan_body_extends [of env opts pm maxA a st] obtain new where
      new: "snd (body_state (Scan_body env opts pm maxA a st)) = snd st @ new" by blast
    show ?thesis
    proof (cases "Scan_body env opts pm maxA a st")
      case (Inl r)
      with True 1(2) have "r = y" by simp
      with Inl new show ?thesis by (simp add: body_state_def)
    next
      case (Inr c)
      with True 1(2) have "loop env opts pm maxA (fst c) (snd c) = Some y" by simp
      from 1(1) [OF this] obtain new' where "snd (snd y) = snd (snd c) @ new'" by blast
      with Inr new show ?thesis by (simp add: body_state_def)
    qed
  qed
qed

lemma Scan_loop_terminates:
  assumes progress: "\<And>w a mbi. a < maxA \<Longrightarrow> fst (VirtualQueryEx env w a) = Some mbi
                       \<Longrightarrow> a < next_address mbi"
  shows "\<exists>r. Scan_loop env opts pm maxA a st = Some r"
proof (induction "unat maxA - unat a" arbitrary: a st rule: less_induct)
  case less
  show ?case
  proof (cases "a < maxA")
    case False
    then show ?thesis by (simp add: Scan_loop_done)
  next
    case True
    show ?thesis
    proof (cases "Scan_body env opts pm maxA a st")
      case (Inl r)
      with True have "Scan_loop env opts pm maxA a st = Some r" by (rule Scan_loop_return)
      then show ?thesis by blast
    next
      case (Inr c)
      from Scan_body_Inr [OF Inr] obtain mbi where
        "fst (VirtualQueryEx env (fst st) a) = Some mbi" "fst c = next_address mbi"
        by blast
      with progress [OF True] have "a < fst c" by simp
      with True have "unat maxA - unat (fst c) < unat maxA - unat a"
        by (simp add: word_less_nat_alt)
      from less [OF this] obtain r where "Scan_loop env opts pm maxA (fst c) (snd c) = Some r"
        by blast
      with Scan_loop_continue [OF True Inr] show ?thesis by (intro exI [of _ r]) simp
    qed
  qed
qed

lemma reads_append: "reads (xs @ ys) = reads xs @ reads ys"
  by (induction xs rule: reads.induct) simp_all

lemma reads_map_Deliver: "reads (map (\<lambda>x. Deliver (f x)) xs) = []"
  by (induction xs) simp_all


lemma Scan_body_reads:
  assumes "ctx_Err env (fst st) = None"
    and "fst (VirtualQueryEx env (fst st) a) = Some mbi"
  shows "reads (added (snd st) (snd (body_state (Scan_body env opts pm maxA a st)))) =
           (if isReadableRegion mbi
               \<and> BaseAddress mbi < read_end (BaseAddress mbi) (RegionSize mbi) maxA
            then [(BaseAddress mbi,
                   read_end (BaseAddress mbi) (RegionSize mbi) maxA - BaseAddress mbi)]
            else [])"
proof (cases "isReadableRegion mbi")
  case False
  with assms show ?thesis by (simp add: Scan_body_skip body_state_def added_def)
next
  case True
  let ?st1 = "(snd (VirtualQueryEx env (fst st) a), snd st @ [Query a])"
  obtain err st' where sr: "scanRegion env opts pm (BaseAddress mbi) (RegionSize mbi) maxA ?st1
      = (err, st')"
    by (cases "scanRegion env opts pm (BaseAddress mbi) (RegionSize mbi) maxA ?st1") blast
  have body: "snd (body_state (Scan_body env opts pm maxA a st)) = snd st'"
    by (simp add: Scan_body_scan [OF assms True sr] body_state_def)
  show ?thesis
  proof (cases "read_end (BaseAddress mbi) (RegionSize mbi) maxA \<le> BaseAddress mbi")
    case empty: True
    with sr have "st' = ?st1" by (simp add: scanRegion_empty)
    with True empty body show ?thesis by (simp add: added_def)
  next
    case False
    from scanRegion_trace [OF sr False] True False body show ?thesis
      by (auto simp: added_def reads_append reads_map_Deliver)
  qed
qed

lemma read_within_bounds:
  fixes base rsize maxA :: "64 word"
  assumes "base < read_end base rsize maxA"
  shows "read_end base rsize maxA - base \<noteq> 0"
    and "read_end base rsize maxA - base \<le> rsize"
    and "unat base + unat (read_end base rsize maxA - base) \<le> unat maxA"
proof -
  let ?e = "read_end base rsize maxA"
  have sub: "unat (?e - base) = unat ?e - unat base"
    using assms by (simp add: unat_sub word_le_nat_alt word_less_nat_alt)
  have lt: "unat base < unat ?e" using assms by (simp add: word_less_nat_alt)
  show "?e - base \<noteq> 0" using assms by simp
  have e_le: "unat ?e \<le> unat maxA"
    by (simp add: read_end_def word_le_nat_alt word_less_nat_alt)
  from sub lt e_le show "unat base + unat (?e - base) \<le> unat maxA" by simp
  show "?e - base \<le> rsize"
  proof (cases "base + rsize > maxA")
    case True
    then have e: "?e = maxA" by (simp add: read_end_def)
    with assms True have "base < base + rsize" by simp
    then have "base \<le> base + rsize" by simp
    then have "unat base + unat rsize < 2 ^ LENGTH(64)" by (simp only: no_olen_add_nat)
    then have nowrap: "unat (base + rsize) = unat base + unat rsize"
      by (simp only: unat_add_lem)
    from True have "unat maxA < unat (base + rsize)" by (simp add: word_less_nat_alt)
    with nowrap sub e show ?thesis by (simp add: word_le_nat_alt)
  next
    case False
    then have "?e = base + rsize" by (simp add: read_end_def)
    then show ?thesis by simp
  qed
qed

lemma scanRegion_delivered_within:
  assumes "scanRegion env opts pm base rsize maxA st = (err, st')"
    and "m \<in> set (delivered (added (snd st) (snd st')))"
  shows "match_within pm maxA m"
proof -
  let ?n = "read_end base rsize maxA - base"
  let ?buf = "region_buffer env (fst st) base ?n"
  from scanRegion_delivered [OF assms(1)] obtain ks rest where
    ks: "FindMatches pm ?buf (IgnoreCase opts) = ks @ rest"
    and d: "delivered (added (snd st) (snd st')) = map (match_at pm base ?buf) ks"
    and ne: "ks \<noteq> [] \<longrightarrow> base < read_end base rsize maxA"
    by blast
  from assms(2) d obtain off where off: "off \<in> set ks" "m = match_at pm base ?buf off" by auto
  with ne have r: "base < read_end base rsize maxA" by auto
  from off(1) ks have "off \<in> set (FindMatches pm ?buf (IgnoreCase opts))" by simp
  then have fit: "off + patternLength pm \<le> length ?buf" by (rule FindMatches_in_range)
  with region_buffer_length [of env "fst st" base ?n]
  have le: "off + patternLength pm \<le> unat ?n" by simp
  from read_within_bounds(3) [OF r] have top: "unat base + unat ?n \<le> unat maxA" .
  have "unat base + off < 2 ^ 64"
    using le top unsigned_less [of maxA, where 'a = nat] by simp
  then have "unat (base + of_nat off) = unat base + off"
    by (simp add: unat_add_lem [THEN iffD1] unat_of_nat)
  with le top fit off(2) show ?thesis
    by (simp add: match_within_def match_at_def)
qed

lemma Scan_body_delivered_within:
  assumes "m \<in> set (delivered (added (snd st)
             (snd (body_state (Scan_body env opts pm maxA a st)))))"
  shows "match_within pm maxA m"
proof (cases "ctx_Err env (fst st)")
  case (Some e)
  with assms show ?thesis by (simp add: Scan_body_cancelled body_state_def added_def)
next
  case None
  show ?thesis
  proof (cases "fst (VirtualQueryEx env (fst st) a)")
    case qn: None
    with None assms show ?thesis
      by (simp add: Scan_body_query_failed body_state_def added_def)
  next
    case (Some mbi)
    show ?thesis
    proof (cases "isReadableRegion mbi")
      case False
      with None Some assms show ?thesis by (simp add: Scan_body_skip body_state_def added_def)
    next
      case True
      let ?st1 = "(snd (VirtualQueryEx env (fst st) a), snd st @ [Query a])"
      obtain err st' where sr: "scanRegion env opts pm (BaseAddress mbi) (RegionSize mbi) maxA ?st1
          = (err, st')"
        by (cases "scanRegion env opts pm (BaseAddress mbi) (RegionSize mbi) maxA ?st1") blast
      from scanRegion_extends [OF sr] obtain new where new: "snd st' = snd st @ Query a # new"
        by auto
      have "snd (body_state (Scan_body env opts pm maxA a st)) = snd st'"
        by (simp add: Scan_body_scan [OF None Some True sr] body_state_def)
      with assms new have "m \<in> set (delivered new)" by (simp add: added_def)
      with new have "m \<in> set (delivered (added (snd ?st1) (snd st')))" by (simp add: added_def)
      from scanRegion_delivered_within [OF sr this] show ?thesis .
    qed
  qed
qed

lemma Scan_loop_delivered_within:
  assumes "Scan_loop env opts pm maxA a st = Some y"
  shows "\<exists>new. snd (snd y) = snd st @ new
           \<and> (\<forall>m\<in>set (delivered new). match_within pm maxA m)"
proof (rule Scan_loop.raw_induct [where P = "\<lambda>env opts pm maxA a st y.
         \<exists>new. snd (snd y) = snd st @ new
           \<and> (\<forall>m\<in>set (delivered new). match_within pm maxA m)",
         OF _ assms], goal_cases)
  case (1 loop env opts pm maxA a st y)
  show ?case
  proof (cases "a < maxA")
    case False
    with 1(2) show ?thesis by auto
  next
    case True
    from Scan_body_extends [of env opts pm maxA a st] obtain new1 where
      n1: "snd (body_state (Scan_body env opts pm maxA a st)) = snd st @ new1" by blast
    with Scan_body_delivered_within [of _ st env opts pm maxA a]
    have one: "\<forall>m\<in>set (delivered new1). match_within pm maxA m"
      by (simp add: added_def)
    show ?thesis
    proof (cases "Scan_body env opts pm maxA a st")
      case (Inl r)
      with True 1(2) have "r = y" by simp
      with Inl n1 one show ?thesis by (auto simp: body_state_def)
    next
      case (Inr c)
      with True 1(2) have run: "loop env opts pm maxA (fst c) (snd c) = Some y" by simp
      from 1(1) [OF run] obtain new2 where
        n2: "snd (snd y) = snd (snd c) @ new2"
        and two: "\<forall>m\<in>set (delivered new2). match_within pm maxA m" by blast
      from Inr n1 have "snd (snd c) = snd st @ new1" by (simp add: body_state_def)
      with n2 have "snd (snd y) = snd st @ (new1 @ new2)" by simp
      moreover from one two
      have "\<forall>m\<in>set (delivered (new1 @ new2)). match_within pm maxA m"
        by (auto simp: delivered_append)
      ultimately show ?thesis by blast
    qed
  qed
qed

section \<open>Runs of the concrete processes\<close>


lemma NewPatternMatcher_41_42: "NewPatternMatcher ''41 42'' = Inr matcher_41_42"
  by code_simp

lemma NewPatternMatcher_bad_token:
  "NewPatternMatcher ''57 ?? 4'' = Inl (InvalidHexPattern ''4'')"
  by code_simp

lemma scanRegion_one_region:
  "scanRegion (static_process one_region never_cancelled)
     (scan_options ''41 42'' 0 8 continue_handler) matcher_41_42 0 8 8 (0, [])
   = (None, 2, [Read 0 8, Deliver \<lparr>Address = 2, Data = [0x41, 0x42]\<rparr>,
                Deliver \<lparr>Address = 5, Data = [0x41, 0x42]\<rparr>])"
  by code_simp


lemma FindMatches_one_region:
  "FindMatches matcher_41_42 [0x00, 0x00, 0x41, 0x42, 0x00, 0x41, 0x42, 0x00] False = [2, 5]"
  by code_simp

lemma cancelled_scan_aux:
  "Scan (static_process one_region (cancelled_after 1))
     (scan_options ''41 42'' 0 8 continue_handler) (0, [])
   = Some (Some (ContextError Canceled), 1,
       [Query 0, Read 0 8, Deliver \<lparr>Address = 2, Data = [0x41, 0x42]\<rparr>])"
  by code_simp



lemma two_regions_progress:
  assumes "a < 8"
    and "fst (VirtualQueryEx (static_process two_regions never_cancelled) w a) = Some mbi"
  shows "a < next_address mbi"
proof -
  from assms(2) have "(a < 4 \<and> next_address mbi = 4) \<or> next_address mbi = 8"
    by (auto simp: static_process_def two_regions_def region_at_def next_address_def
             split: if_splits)
  then show ?thesis using assms(1) by auto
qed

lemma guard_region_pass:
  "reads (added [] (snd (body_state (Scan_body (static_process guarded_memory never_cancelled)
         (scan_options ''41'' 0 4 continue_handler) matcher_41 4 0 (0, []))))) = [(0, 4)]"
  by code_simp

section \<open>The claims\<close>

text \<open>
  C1. Claim: when the handler returns "stop" on the \<open>k\<close>-th match, the scan ends with
  exactly \<open>k\<close> matches delivered; the handler is not invoked again and no further region
  is queried or read. (\<open>MatchHandler\<close> is documented: "Return false to stop the scan".)

  The code does not do this. \<open>scanRegion\<close> answers a stop with \<open>return nil\<close>, which
  \<open>Scan\<close> cannot tell from a region searched to its end, so the walk goes on with the
  next region. With two regions that each hold the pattern and a handler that always
  returns "stop" (\<open>k = 1\<close>), the second region is queried and read and the handler is
  invoked a second time.
\<close>

theorem stop_does_not_end_scan:
  "Scan (static_process two_regions never_cancelled)
     (scan_options ''41'' 0 8 stop_handler) (0, [])
   = Some (None, 2,
       [Query 0, Read 0 4, Deliver \<lparr>Address = 0, Data = [0x41]\<rparr>,
        Query 4, Read 4 4, Deliver \<lparr>Address = 4, Data = [0x41]\<rparr>])"
  by code_simp

text \<open>
  A scan cancelled after its first match returns the context's error, not success.
\<close>

theorem cancelled_scan_returns_error:
  "Scan (static_process one_region (cancelled_after 1))
     (scan_options ''41 42'' 0 8 continue_handler) (0, [])
   = Some (Some (ContextError Canceled), 1,
       [Query 0, Read 0 8, Deliver \<lparr>Address = 2, Data = [0x41, 0x42]\<rparr>])"
  by code_simp

text \<open>
  C2, as the code has it. A cancellation is observed at two checkpoints: at the head of
  every pass of the region loop, before the region query, and before every handler
  invocation inside a region. At either checkpoint the scan returns at once, with the world
  and the trace as they are (no further query, read or handler invocation), and what it
  returns is the context's error \<open>ctx.Err()\<close>, not \<open>nil\<close>; an error \<open>scanRegion\<close>
  returns is handed on by \<open>Scan\<close> unchanged. Conversely, whenever \<open>Scan\<close> returns a
  context error, that error is the context's error in the world the scan ended in, and the
  trace it ends with extends the trace it started from: the matches delivered are those
  delivered before the cancellation was observed.
\<close>

theorem cancellation_at_checkpoints:
  "(address < maxAddress \<and> ctx_Err env (fst st) = Some e
      \<longrightarrow> Scan_loop env opts pm maxAddress address st = Some (Some (ContextError e), st))
   \<and> (ctx_Err env (fst st) = Some e
      \<longrightarrow> scanRegion_matches env opts pm base buffer (offset # rest) st
            = (Some (ContextError e), st))
   \<and> (address < maxAddress \<and> ctx_Err env (fst st) = None
        \<and> fst (VirtualQueryEx env (fst st) address) = Some mbi \<and> isReadableRegion mbi
        \<and> scanRegion env opts pm (BaseAddress mbi) (RegionSize mbi) maxAddress
             (snd (VirtualQueryEx env (fst st) address), snd st @ [Query address])
           = (Some err, st1)
      \<longrightarrow> Scan_loop env opts pm maxAddress address st = Some (Some err, st1))
   \<and> (Scan env opts st = Some (Some (ContextError e), st')
      \<longrightarrow> ctx_Err env (fst st') = Some e \<and> (\<exists>new. snd st' = snd st @ new))"
proof (intro conjI impI)
  assume "address < maxAddress \<and> ctx_Err env (fst st) = Some e"
  then show "Scan_loop env opts pm maxAddress address st = Some (Some (ContextError e), st)"
    by (simp add: Scan_loop_return Scan_body_cancelled)
next
  assume "ctx_Err env (fst st) = Some e"
  then show "scanRegion_matches env opts pm base buffer (offset # rest) st
             = (Some (ContextError e), st)"
    by simp
next
  assume a: "address < maxAddress \<and> ctx_Err env (fst st) = None
        \<and> fst (VirtualQueryEx env (fst st) address) = Some mbi \<and> isReadableRegion mbi
        \<and> scanRegion env opts pm (BaseAddress mbi) (RegionSize mbi) maxAddress
             (snd (VirtualQueryEx env (fst st) address), snd st @ [Query address])
           = (Some err, st1)"
  then have "Scan_body env opts pm maxAddress address st = Inl (Some err, st1)"
    using Scan_body_scan [of env st address mbi opts pm maxAddress "Some err" st1] by simp
  with a show "Scan_loop env opts pm maxAddress address st = Some (Some err, st1)"
    by (simp add: Scan_loop_return)
next
  assume run: "Scan env opts st = Some (Some (ContextError e), st')"
  then obtain matcher where
    loop: "Scan_loop env opts matcher (MaxAddress opts) (MinAddress opts) st
           = Some (Some (ContextError e), st')"
    by (auto simp: Scan_def split: sum.splits)
  from Scan_loop_error_observed [OF loop] show "ctx_Err env (fst st') = Some e" by simp
  from Scan_loop_extends [OF loop] show "\<exists>new. snd st' = snd st @ new" by simp
qed

theorem cancellation_at_checkpoints_witness:
  "Scan_loop (static_process one_region (cancelled_after 1))
     (scan_options ''41 42'' 0 8 continue_handler) matcher_41_42 8 0 (1, [])
   = Some (Some (ContextError Canceled), 1, [])
   \<and> scanRegion_matches (static_process one_region (cancelled_after 1))
       (scan_options ''41 42'' 0 8 continue_handler) matcher_41_42 0
       [0x00, 0x00, 0x41, 0x42, 0x00, 0x41, 0x42, 0x00] [5] (1, [])
     = (Some (ContextError Canceled), 1, [])
   \<and> Scan_loop (static_process one_region (cancelled_after 1))
       (scan_options ''41 42'' 0 8 continue_handler) matcher_41_42 8 0 (0, [])
     = Some (Some (ContextError Canceled), 1,
         [Query 0, Read 0 8, Deliver \<lparr>Address = 2, Data = [0x41, 0x42]\<rparr>])
   \<and> ctx_Err (static_process one_region (cancelled_after 1)) 1 = Some Canceled"
proof -
  let ?env = "static_process one_region (cancelled_after 1)"
  let ?opts = "scan_options ''41 42'' 0 8 continue_handler"
  let ?mbi = "\<lparr>BaseAddress = 0, RegionSize = 8, State = MEM_COMMIT, Protect = PAGE_READWRITE\<rparr>"
  let ?tr = "[Query 0, Read 0 8, Deliver \<lparr>Address = 2, Data = [0x41, 0x42]\<rparr>]"
  have c1: "ctx_Err ?env 1 = Some Canceled" and c0: "ctx_Err ?env 0 = None"
    by (simp_all add: static_process_def cancelled_after_def)
  have q: "VirtualQueryEx ?env 0 0 = (Some ?mbi, 0)" by code_simp
  have r: "isReadableRegion ?mbi" by code_simp
  have sr: "scanRegion ?env ?opts matcher_41_42 0 8 8 (0, [Query 0])
            = (Some (ContextError Canceled), 1, ?tr)"
    by code_simp
  note T = cancellation_at_checkpoints
  have "Scan_loop ?env ?opts matcher_41_42 8 0 (1, []) = Some (Some (ContextError Canceled), 1, [])"
    using T [of 0 8 ?env "(1, [])" Canceled] c1 by simp
  moreover have "scanRegion_matches ?env ?opts matcher_41_42 0
       [0x00, 0x00, 0x41, 0x42, 0x00, 0x41, 0x42, 0x00] [5] (1, [])
     = (Some (ContextError Canceled), 1, [])"
    using T [of _ _ ?env "(1, [])" Canceled] c1 by simp
  moreover have "Scan_loop ?env ?opts matcher_41_42 8 0 (0, [])
     = Some (Some (ContextError Canceled), 1, ?tr)"
    using T [of 0 8 ?env "(0, [])" _ ?opts matcher_41_42 _ _ _ _ ?mbi "ContextError Canceled"
               "(1, ?tr)"] c0 q r sr
    by simp
  moreover have "ctx_Err ?env 1 = Some Canceled"
    using T [of _ _ ?env "(0, [])" Canceled ?opts _ _ _ _ _ _ _ _ "(1, ?tr)"]
      cancelled_scan_aux
    by simp
  ultimately show ?thesis by simp
qed




text \<open>
  C4. Claim: both bounds are inclusive, so a match that ends exactly at \<open>MaxAddress\<close> is
  reported. (\<open>ScanOptions.MaxAddress\<close> is documented: "Maximum address to scan to
  (inclusive)".)

  The code treats \<open>MaxAddress\<close> as exclusive: the loop runs while
  \<open>address < maxAddress\<close> and \<open>scanRegion\<close> clamps the end of the read to
  \<open>maxAddress\<close>, so the byte at \<open>MaxAddress\<close> is never read. With one region holding
  \<open>41 42\<close> at addresses 2 and 3 and \<open>MaxAddress = 3\<close>, three bytes are read and nothing is
  reported; with \<open>MaxAddress = 4\<close> the match at address 2 is reported.
\<close>

theorem max_address_excluded:
  "Scan (static_process one_region never_cancelled)
     (scan_options ''41 42'' 0 3 continue_handler) (0, [])
   = Some (None, 0, [Query 0, Read 0 3])
   \<and> Scan (static_process one_region never_cancelled)
       (scan_options ''41 42'' 0 4 continue_handler) (0, [])
     = Some (None, 1, [Query 0, Read 0 4, Deliver \<lparr>Address = 2, Data = [0x41, 0x42]\<rparr>])"
  by code_simp

text \<open>
  C5. For every buffer, every well-formed matcher and either setting of \<open>ignoreCase\<close>,
  \<open>FindMatches\<close> returns exactly the offsets \<open>i\<close> with \<open>i + patternLength \<le> len(buffer)\<close>
  at which every position of the pattern is a wildcard or equals the buffer byte at
  \<open>i + j\<close> (case-folded for ASCII letters when \<open>ignoreCase\<close> is set, byte for byte
  otherwise). Each such offset is listed once, overlapping occurrences included, and the
  result is empty when the pattern is empty or longer than the buffer.
\<close>

theorem FindMatches_exact:
  assumes "matcher_ok pm"
  shows "set (FindMatches pm buffer ignoreCase) =
           {i. 0 < patternLength pm \<and> i + patternLength pm \<le> length buffer
               \<and> occurs_at pm buffer ignoreCase i}
         \<and> distinct (FindMatches pm buffer ignoreCase)
         \<and> (patternLength pm = 0 \<or> length buffer < patternLength pm
              \<longrightarrow> FindMatches pm buffer ignoreCase = [])"
proof -
  have "distinct (FindMatches pm buffer ignoreCase)"
    by (simp add: FindMatches_filter)
  moreover have "set (FindMatches pm buffer ignoreCase) =
           {i. 0 < patternLength pm \<and> i + patternLength pm \<le> length buffer
               \<and> occurs_at pm buffer ignoreCase i}"
    by (auto simp: FindMatches_filter)
  moreover have "FindMatches pm buffer ignoreCase = []"
    if "patternLength pm = 0 \<or> length buffer < patternLength pm"
    using that by (auto simp: FindMatches_filter)
  ultimately show ?thesis by simp
qed

text \<open>The pattern \<open>41 41\<close> occurs in \<open>AAA\<close> at the overlapping offsets 0 and 1.\<close>

theorem FindMatches_exact_witness:
  "matcher_ok \<lparr>patternBytes = [0x41, 0x41], wildcardMask = [False, False], patternLength = 2\<rparr>
   \<and> set (FindMatches \<lparr>patternBytes = [0x41, 0x41], wildcardMask = [False, False],
                        patternLength = 2\<rparr> [0x41, 0x41, 0x41] False) = {0, 1}"
proof -
  let ?pm = "\<lparr>patternBytes = [0x41, 0x41], wildcardMask = [False, False], patternLength = 2\<rparr>"
  have ok: "matcher_ok ?pm" by (simp add: matcher_ok_def)
  have occ: "occurs_at ?pm [0x41, 0x41, 0x41] False i" if "i \<le> 1" for i
  proof -
    from that have "i = 0 \<or> i = 1" by arith
    then show ?thesis
      by (auto simp: occurs_at_def eq_fold_def less_Suc_eq numeral_2_eq_2)
  qed
  have "{i. 0 < patternLength ?pm \<and> i + patternLength ?pm \<le> length [0x41, 0x41, 0x41 :: byte]
            \<and> occurs_at ?pm [0x41, 0x41, 0x41] False i} = {0, 1}"
    using occ by auto
  with ok FindMatches_exact [OF ok, of "[0x41, 0x41, 0x41]" False] show ?thesis by simp
qed

text \<open>
  C6. \<open>StringToPattern\<close> of the empty string is the empty pattern, whatever
  \<open>minLength\<close>. For a non-empty input the result is a sequence of tokens joined by single
  blanks, of length \<open>max(len(input), minLength)\<close>; the token at position \<open>i\<close> is \<open>??\<close>
  when the input byte at \<open>i\<close> is \<open>?\<close>, the two upper-case hexadecimal digits of the byte
  otherwise, and \<open>??\<close> at every position past the end of the input. The two digits of a
  byte decode back to that byte.
\<close>

theorem StringToPattern_tokens:
  "StringToPattern [] minLength = []
   \<and> (searchStr \<noteq> [] \<longrightarrow>
        (\<exists>tokens. StringToPattern searchStr minLength = join_space tokens
           \<and> int (length tokens) = max (int (length searchStr)) minLength
           \<and> (\<forall>i<length tokens.
                 tokens ! i = (if i < length searchStr
                               then (if searchStr ! i = CHR ''?'' then ''??''
                                     else Sprintf_02X (searchStr ! i))
                               else ''??''))))
   \<and> hex_DecodeString (Sprintf_02X c) = Some [of_char c]"
proof (intro conjI impI)
  show "StringToPattern [] minLength = []" by (simp add: StringToPattern_def)
next
  assume ne: "searchStr \<noteq> []"
  let ?n = "nat (max (int (length searchStr)) minLength)"
  let ?tokens = "map (StringToPattern_token searchStr) [0..<?n]"
  have "StringToPattern searchStr minLength = join_space ?tokens"
    using ne by (rule StringToPattern_join)
  moreover have "int (length ?tokens) = max (int (length searchStr)) minLength"
    by (simp add: le_max_iff_disj)
  moreover have "\<forall>i<length ?tokens.
                 ?tokens ! i = (if i < length searchStr
                               then (if searchStr ! i = CHR ''?'' then ''??''
                                     else Sprintf_02X (searchStr ! i))
                               else ''??'')"
    by (simp add: StringToPattern_token_def Let_def)
  ultimately show "\<exists>tokens. StringToPattern searchStr minLength = join_space tokens
           \<and> int (length tokens) = max (int (length searchStr)) minLength
           \<and> (\<forall>i<length tokens.
                 tokens ! i = (if i < length searchStr
                               then (if searchStr ! i = CHR ''?'' then ''??''
                                     else Sprintf_02X (searchStr ! i))
                               else ''??''))"
    by blast
next
  show "hex_DecodeString (Sprintf_02X c) = Some [of_char c]" by (rule Sprintf_02X_decodes)
qed

theorem StringToPattern_tokens_witness:
  "''We?'' \<noteq> [] \<and> StringToPattern ''We?'' 5 = ''57 65 ?? ?? ??''
   \<and> (\<exists>tokens. ''57 65 ?? ?? ??'' = join_space tokens \<and> int (length tokens) = 5
         \<and> tokens ! 0 = ''57'' \<and> tokens ! 2 = ''??'' \<and> tokens ! 4 = ''??'')"
proof -
  have run: "StringToPattern ''We?'' 5 = ''57 65 ?? ?? ??''" by code_simp
  have hex: "Sprintf_02X CHR ''W'' = ''57''" by code_simp
  from StringToPattern_tokens [of 5 "''We?''" "CHR ''W''"] obtain tokens where
    t: "StringToPattern ''We?'' 5 = join_space tokens"
       "int (length tokens) = max (int (length ''We?'')) 5"
       "\<forall>i<length tokens.
          tokens ! i = (if i < length ''We?''
                        then (if ''We?'' ! i = CHR ''?'' then ''??'' else Sprintf_02X (''We?'' ! i))
                        else ''??'')"
    by auto
  from t(2) have len: "length tokens = 5" by simp
  with t(3) have "tokens ! 0 = ''57''" "tokens ! 2 = ''??''" "tokens ! 4 = ''??''"
    by (simp_all add: hex)
  with t(1) len run show ?thesis by auto
qed

text \<open>
  C7. \<open>NewPatternMatcher\<close> fails exactly when the list of white-space separated tokens
  is empty or some token other than \<open>??\<close> is not one hex-encoded byte (two hexadecimal
  digits). When the pattern of the options is invalid, \<open>Scan\<close> returns that error with
  the world and the trace untouched: no query, no read, no handler invocation.
\<close>

theorem NewPatternMatcher_error_iff:
  "(isl (NewPatternMatcher pattern) \<longleftrightarrow>
      Fields pattern = [] \<or> (\<exists>t\<in>set (Fields pattern). t \<noteq> ''??'' \<and> \<not> hex_byte_token t))
   \<and> (\<forall>err. NewPatternMatcher (Pattern opts) = Inl err
          \<longrightarrow> Scan env opts st = Some (Some (InvalidPattern err), st))"
  by (simp add: NewPatternMatcher_fails_iff Scan_def)

theorem NewPatternMatcher_error_iff_witness:
  "isl (NewPatternMatcher ''57 ?? 4'')
   \<and> Scan (static_process one_region never_cancelled)
       (scan_options ''57 ?? 4'' 0 8 continue_handler) (0, [])
     = Some (Some (InvalidPattern (InvalidHexPattern ''4'')), 0, [])"
proof -
  let ?opts = "scan_options ''57 ?? 4'' 0 8 continue_handler"
  have "Pattern ?opts = ''57 ?? 4''" by (simp add: scan_options_def)
  with NewPatternMatcher_bad_token
    NewPatternMatcher_error_iff [of "''57 ?? 4''" ?opts
      "static_process one_region never_cancelled" "(0, [])"]
  show ?thesis by simp
qed




text \<open>
  C9, as the code has it. After a region the cursor is the region's base plus its size, one
  more when the size is zero; the new cursor is computed from the descriptor alone, not
  from the old cursor. The walk terminates whenever every descriptor the query returns for
  a cursor below \<open>MaxAddress\<close> puts the new cursor strictly above the old one (as it does
  when the region contains the queried address, has a size that is not zero and does not end
  past the top of the address space).
\<close>

theorem Scan_terminates_with_progress:
  assumes "\<forall>w a mbi. a < MaxAddress opts \<longrightarrow> fst (VirtualQueryEx env w a) = Some mbi
                       \<longrightarrow> a < next_address mbi"
  shows "(\<exists>result. Scan env opts st = Some result)
         \<and> (\<forall>a s pm c. Scan_body env opts pm (MaxAddress opts) a s = Inr c \<longrightarrow>
               (\<exists>mbi. fst (VirtualQueryEx env (fst s) a) = Some mbi
                  \<and> fst c = (if RegionSize mbi = 0 then BaseAddress mbi + RegionSize mbi + 1
                             else BaseAddress mbi + RegionSize mbi)))"
proof
  show "\<exists>result. Scan env opts st = Some result"
  proof (cases "NewPatternMatcher (Pattern opts)")
    case (Inl err)
    then show ?thesis by (simp add: Scan_def)
  next
    case (Inr pm)
    from assms Scan_loop_terminates [of "MaxAddress opts" env opts pm "MinAddress opts" st]
    show ?thesis by (simp add: Scan_def Inr)
  qed
next
  show "\<forall>a s pm c. Scan_body env opts pm (MaxAddress opts) a s = Inr c \<longrightarrow>
               (\<exists>mbi. fst (VirtualQueryEx env (fst s) a) = Some mbi
                  \<and> fst c = (if RegionSize mbi = 0 then BaseAddress mbi + RegionSize mbi + 1
                             else BaseAddress mbi + RegionSize mbi))"
    by (auto dest!: Scan_body_Inr simp: next_address_def Let_def)
qed

theorem Scan_terminates_with_progress_witness:
  "\<exists>result. Scan (static_process two_regions never_cancelled)
              (scan_options ''41'' 0 8 continue_handler) (0, []) = Some result"
proof -
  let ?opts = "scan_options ''41'' 0 8 continue_handler"
  have "MaxAddress ?opts = 8" by (simp add: scan_options_def)
  then have "\<forall>w a mbi. a < MaxAddress ?opts
      \<longrightarrow> fst (VirtualQueryEx (static_process two_regions never_cancelled) w a) = Some mbi
      \<longrightarrow> a < next_address mbi"
    using two_regions_progress by simp
  from Scan_terminates_with_progress [OF this] show ?thesis by blast
qed

text \<open>
  C10. The offsets \<open>FindMatches\<close> returns are strictly increasing, and the matches
  \<open>scanRegion\<close> hands to the handler within one region have strictly increasing
  addresses (in the unsigned order of 64-bit addresses).
\<close>

theorem matches_strictly_increasing:
  "sorted_wrt (<) (FindMatches pm buffer ignoreCase)
   \<and> (scanRegion env opts pm base rsize maxA st = (err, st')
        \<longrightarrow> sorted_wrt (<) (map Address (delivered (added (snd st) (snd st')))))"
proof (intro conjI impI)
  show "sorted_wrt (<) (FindMatches pm buffer ignoreCase)"
    by (rule FindMatches_strict_sorted)
next
  assume run: "scanRegion env opts pm base rsize maxA st = (err, st')"
  let ?n = "read_end base rsize maxA - base"
  let ?buf = "region_buffer env (fst st) base ?n"
  from scanRegion_delivered [OF run] obtain ks rest where
    ks: "FindMatches pm ?buf (IgnoreCase opts) = ks @ rest"
    and d: "delivered (added (snd st) (snd st')) = map (match_at pm base ?buf) ks"
    and ne: "ks \<noteq> [] \<longrightarrow> base < read_end base rsize maxA"
    by blast
  have sorted_ks: "sorted_wrt (<) ks"
    using FindMatches_strict_sorted [of pm ?buf "IgnoreCase opts"] ks
    by (simp add: sorted_wrt_append)
  have in_range: "off < unat ?n" if "off \<in> set ks" for off
  proof -
    from that ks have mem: "off \<in> set (FindMatches pm ?buf (IgnoreCase opts))" by simp
    then have "off + patternLength pm \<le> length ?buf" by (rule FindMatches_in_range)
    moreover from mem have "patternLength pm \<noteq> 0"
      by (auto simp: FindMatches_def split: if_splits)
    ultimately show ?thesis using region_buffer_length [of env "fst st" base ?n] by simp
  qed
  have "sorted_wrt (\<lambda>i j. base + of_nat i < base + of_nat j) ks"
  proof (rule sorted_wrt_mono_rel [OF _ sorted_ks])
    fix i j assume "i \<in> set ks" "j \<in> set ks" "i < j"
    with ne in_range [of j] show "base + of_nat i < base + of_nat j"
      by (intro address_strict_mono [of base "read_end base rsize maxA"]) auto
  qed
  then show "sorted_wrt (<) (map Address (delivered (added (snd st) (snd st'))))"
    by (simp add: d sorted_wrt_map match_at_def)
qed

theorem matches_strictly_increasing_witness:
  "sorted_wrt (<) [2, 5 :: nat] \<and> sorted_wrt (<) [2, 5 :: 64 word]"
proof -
  from matches_strictly_increasing [of matcher_41_42
      "[0x00, 0x00, 0x41, 0x42, 0x00, 0x41, 0x42, 0x00]" False
      "static_process one_region never_cancelled"
      "scan_options ''41 42'' 0 8 continue_handler" 0 8 8 "(0, [])" None
      "(2, [Read 0 8, Deliver \<lparr>Address = 2, Data = [0x41, 0x42]\<rparr>,
            Deliver \<lparr>Address = 5, Data = [0x41, 0x42]\<rparr>])"]
    scanRegion_one_region
  show ?thesis
    by (simp add: FindMatches_one_region added_def)
qed

section \<open>Further properties\<close>

text \<open>
  X1. A matcher that \<open>NewPatternMatcher\<close> returns has one position for every token of
  the pattern, and at least one: both arrays have the length \<open>patternLength\<close>, a
  position is a wildcard exactly when its token is \<open>??\<close>, and the byte of any other
  position is the one its token's two hexadecimal digits encode.
\<close>

theorem NewPatternMatcher_contents:
  assumes "NewPatternMatcher pattern = Inr pm"
  shows "matcher_ok pm \<and> 0 < patternLength pm \<and> patternLength pm = length (Fields pattern)
       \<and> (\<forall>k<patternLength pm.
             (wildcardMask pm ! k \<longleftrightarrow> Fields pattern ! k = ''??'')
           \<and> (Fields pattern ! k \<noteq> ''??''
                \<longrightarrow> hex_DecodeString (Fields pattern ! k) = Some [patternBytes pm ! k]))"
  using assms by (rule matcher_contents)

theorem NewPatternMatcher_contents_witness:
  "NewPatternMatcher ''41 42'' = Inr matcher_41_42 \<and> matcher_ok matcher_41_42
   \<and> 0 < patternLength matcher_41_42
   \<and> patternLength matcher_41_42 = length (Fields ''41 42'')"
  using NewPatternMatcher_contents [OF NewPatternMatcher_41_42] NewPatternMatcher_41_42
  by blast

text \<open>
  X2. A read that a pass of the region loop issues starts at the base of the region the
  query returned, is not empty, is no longer than the region and ends at or below
  \<open>MaxAddress\<close>: the read never exceeds \<open>min(region.size, maxAddress - base)\<close>.
\<close>

theorem reads_within_bounds:
  assumes "ctx_Err env (fst st) = None"
    and "fst (VirtualQueryEx env (fst st) address) = Some mbi"
    and "(b, n) \<in> set (reads (added (snd st)
            (snd (body_state (Scan_body env opts pm maxAddress address st)))))"
  shows "b = BaseAddress mbi \<and> n \<noteq> 0 \<and> n \<le> RegionSize mbi
         \<and> unat b + unat n \<le> unat maxAddress"
proof -
  from assms(3) have r: "BaseAddress mbi < read_end (BaseAddress mbi) (RegionSize mbi) maxAddress"
    and b: "b = BaseAddress mbi"
    and n: "n = read_end (BaseAddress mbi) (RegionSize mbi) maxAddress - BaseAddress mbi"
    unfolding Scan_body_reads [OF assms(1,2)] by (auto split: if_splits)
  from read_within_bounds [OF r] b n show ?thesis by simp
qed

theorem reads_within_bounds_witness:
  "(0 :: 64 word) = BaseAddress guard_region \<and> (4 :: 64 word) \<noteq> 0
   \<and> (4 :: 64 word) \<le> RegionSize guard_region
   \<and> unat (0 :: 64 word) + unat (4 :: 64 word) \<le> unat (4 :: 64 word)"
proof -
  let ?env = "static_process guarded_memory never_cancelled"
  have c: "ctx_Err ?env (fst (0::nat, [])) = None"
    by (simp add: static_process_def never_cancelled_def)
  have q: "fst (VirtualQueryEx ?env (fst (0::nat, [])) 0) = Some guard_region"
    by code_simp
  have m: "(0, 4) \<in> set (reads (added (snd (0::nat, []))
            (snd (body_state (Scan_body ?env (scan_options ''41'' 0 4 continue_handler)
               matcher_41 4 0 (0, []))))))"
    using guard_region_pass by simp
  from reads_within_bounds [OF c q m] show ?thesis .
qed

text \<open>
  X3. The pattern \<open>StringToPattern\<close> builds from a non-empty search string is accepted
  by \<open>NewPatternMatcher\<close>. The matcher has the length \<open>max(len(input), minLength)\<close>; a
  position is a wildcard exactly when it lies past the end of the input or the input byte
  there is \<open>?\<close>, and any other position holds the input byte.
\<close>

theorem compiled_search_string:
  assumes "searchStr \<noteq> []"
  shows "\<exists>pm. NewPatternMatcher (StringToPattern searchStr minLength) = Inr pm
           \<and> matcher_ok pm
           \<and> int (patternLength pm) = max (int (length searchStr)) minLength
           \<and> (\<forall>k<patternLength pm.
                 (wildcardMask pm ! k \<longleftrightarrow> length searchStr \<le> k \<or> searchStr ! k = CHR ''?'')
               \<and> (k < length searchStr \<and> searchStr ! k \<noteq> CHR ''?''
                    \<longrightarrow> patternBytes pm ! k = of_char (searchStr ! k)))"
  using assms by (rule compiled_pattern)

theorem compiled_search_string_witness:
  "''We?'' \<noteq> [] \<and> (\<exists>pm. NewPatternMatcher (StringToPattern ''We?'' 5) = Inr pm
      \<and> matcher_ok pm \<and> int (patternLength pm) = 5)"
proof -
  have ne: "''We?'' \<noteq> []" by simp
  from compiled_search_string [OF ne, of 5] show ?thesis by auto
qed

text \<open>
  X4. The pattern compiled from a non-empty search string without \<open>?\<close>, with no padding,
  matched against a buffer equal to the string, gives exactly the offset 0, with or without
  case folding.
\<close>

theorem literal_self_match:
  assumes "s \<noteq> []" and "CHR ''?'' \<notin> set s" and "minLength \<le> int (length s)"
  shows "\<exists>pm. NewPatternMatcher (StringToPattern s minLength) = Inr pm
           \<and> FindMatches pm (map of_char s) ignoreCase = [0]"
  using assms by (rule literal_pattern_match)

theorem literal_self_match_witness:
  "''WeChat'' \<noteq> [] \<and> CHR ''?'' \<notin> set ''WeChat'' \<and> (6 :: int) \<le> int (length ''WeChat'')
   \<and> (\<exists>pm. NewPatternMatcher (StringToPattern ''WeChat'' 6) = Inr pm
         \<and> FindMatches pm (map of_char ''WeChat'') True = [0])"
proof -
  have h: "''WeChat'' \<noteq> []" "CHR ''?'' \<notin> set ''WeChat''" "(6 :: int) \<le> int (length ''WeChat'')"
    by simp_all
  from literal_self_match [OF h, of True] h show ?thesis by blast
qed

text \<open>
  X5. In a scan that returns, every match handed to the handler has exactly the length of
  the compiled pattern and lies entirely below \<open>MaxAddress\<close>: its address plus its length
  is at most \<open>MaxAddress\<close>, so no reported match contains the byte at \<open>MaxAddress\<close>.
\<close>

theorem Scan_delivers_whole_matches:
  assumes "Scan env opts st = Some (err, st')"
    and "m \<in> set (delivered (added (snd st) (snd st')))"
  shows "\<exists>pm. NewPatternMatcher (Pattern opts) = Inr pm
           \<and> length (Data m) = patternLength pm
           \<and> unat (Address m) + length (Data m) \<le> unat (MaxAddress opts)"
proof (cases "NewPatternMatcher (Pattern opts)")
  case (Inl e)
  with assms show ?thesis by (simp add: Scan_def added_def)
next
  case (Inr pm)
  with assms(1) have "Scan_loop env opts pm (MaxAddress opts) (MinAddress opts) st
                      = Some (err, st')"
    by (simp add: Scan_def)
  from Scan_loop_delivered_within [OF this] assms(2)
  have "match_within pm (MaxAddress opts) m" by (auto simp: added_def)
  with Inr show ?thesis by (simp add: match_within_def)
qed

theorem Scan_delivers_whole_matches_witness:
  "length [0x41, 0x42 :: byte] = patternLength matcher_41_42
   \<and> unat (5 :: 64 word) + length [0x41, 0x42 :: byte] \<le> unat (8 :: 64 word)"
proof -
  let ?env = "static_process one_region never_cancelled"
  let ?opts = "scan_options ''41 42'' 0 8 continue_handler"
  let ?m = "\<lparr>Address = 5, Data = [0x41, 0x42]\<rparr>"
  have run: "Scan ?env ?opts (0, [])
        = Some (None, 2, [Query 0, Read 0 8, Deliver \<lparr>Address = 2, Data = [0x41, 0x42]\<rparr>,
                           Deliver ?m])"
    by code_simp
  have mem: "?m \<in> set (delivered (added (snd (0::nat, []))
      (snd (2::nat, [Query 0, Read 0 8, Deliver \<lparr>Address = 2, Data = [0x41, 0x42]\<rparr>,
                           Deliver ?m]))))"
    by (simp add: added_def)
  have p: "Pattern ?opts = ''41 42''" "MaxAddress ?opts = 8" by (simp_all add: scan_options_def)
  from Scan_delivers_whole_matches [OF run mem] show ?thesis
    by (simp add: p NewPatternMatcher_41_42)
qed

end
